theory Spec2Isabelle
  imports Complex_Main "HOL-Library.AList" "HOL-Library.Multiset"
begin

section \<open>Feature model (app/models/feature\_tree.py)\<close>

text \<open>
  Python exceptions are values: every function that can raise returns
  \<open>py_exn + 'a\<close>, with \<open>Inl\<close> for the exception.
\<close>

datatype py_exn = KeyError | ValueError | TypeError | IndexError | RecursionError | OverflowError

datatype FeatureType =
    WORKPLANE | SKETCH | EXTRUDE | REVOLVE | LOFT | SWEEP
  | BOX | CYLINDER | SPHERE | CONE | TORUS
  | UNION | DIFFERENCE | INTERSECTION
  | FILLET | CHAMFER | MIRROR | PATTERN_LINEAR | PATTERN_CIRCULAR
  | ASSEMBLY_ROOT | COMPONENT | CONSTRAINT
  | DATUM_PLANE | DATUM_AXIS | DATUM_POINT

text \<open>The \<open>.value\<close> of each member of the string enum.\<close>

fun feature_type_value :: "FeatureType \<Rightarrow> string" where
  "feature_type_value WORKPLANE = ''workplane''"
| "feature_type_value SKETCH = ''sketch''"
| "feature_type_value EXTRUDE = ''extrude''"
| "feature_type_value REVOLVE = ''revolve''"
| "feature_type_value LOFT = ''loft''"
| "feature_type_value SWEEP = ''sweep''"
| "feature_type_value BOX = ''box''"
| "feature_type_value CYLINDER = ''cylinder''"
| "feature_type_value SPHERE = ''sphere''"
| "feature_type_value CONE = ''cone''"
| "feature_type_value TORUS = ''torus''"
| "feature_type_value UNION = ''union''"
| "feature_type_value DIFFERENCE = ''difference''"
| "feature_type_value INTERSECTION = ''intersection''"
| "feature_type_value FILLET = ''fillet''"
| "feature_type_value CHAMFER = ''chamfer''"
| "feature_type_value MIRROR = ''mirror''"
| "feature_type_value PATTERN_LINEAR = ''pattern_linear''"
| "feature_type_value PATTERN_CIRCULAR = ''pattern_circular''"
| "feature_type_value ASSEMBLY_ROOT = ''assembly_root''"
| "feature_type_value COMPONENT = ''component''"
| "feature_type_value CONSTRAINT = ''constraint''"
| "feature_type_value DATUM_PLANE = ''datum_plane''"
| "feature_type_value DATUM_AXIS = ''datum_axis''"
| "feature_type_value DATUM_POINT = ''datum_point''"

datatype ParameterType =
  FLOAT | INTEGER | STRING | BOOLEAN | VECTOR3D | POINT3D | ANGLE | LENGTH

text \<open>
  Python values as far as parameters and parsed constants hold them. A finite float is
  represented by its exact rational value; what Python prints for it is not defined here.
\<close>

datatype pyval =
    VNone
  | VBool bool
  | VInt int
  | VFloat rat
  | VStr string
  | VList "pyval list"
  | VTuple "pyval list"

record Parameter =
  pname :: string
  pvalue :: pyval
  ptype :: ParameterType
  original_variable_name :: "string option"

record FeatureReference =
  feature_id :: string
  entity_type :: string

record FeatureNode =
  node_id :: string
  node_name :: string
  feature_type :: FeatureType
  parameters :: "Parameter list"
  parent_references :: "FeatureReference list"
  child_ids :: "string list"
  code_fragment :: "string option"

text \<open>
  A Python dict keeps insertion order and has unique keys: it is an association list,
  read with \<open>map_of\<close>, written with \<open>AList.update\<close> (in place for a key that is
  present, appended for a new one) and \<open>AList.delete\<close>.
\<close>

type_synonym node_dict = "(string \<times> FeatureNode) list"

record FeatureTree =
  project_id :: string
  version :: int
  tree_name :: string
  created_by :: string
  root_node_id :: "string option"
  nodes :: node_dict
  regeneration_order :: "string list"
  global_parameters :: "Parameter list"
  generated_code :: "string option"
  dirty :: bool
  needs_full_regeneration :: bool

definition dict_keys :: "('k \<times> 'v) list \<Rightarrow> 'k list" where
  "dict_keys d = map fst d"

definition dict_values :: "('k \<times> 'v) list \<Rightarrow> 'v list" where
  "dict_values d = map snd d"

text \<open>Truthiness of an optional string: \<open>None\<close> and the empty string are falsy.\<close>

fun truthy :: "string option \<Rightarrow> bool" where
  "truthy None = False"
| "truthy (Some s) = (s \<noteq> [])"

subsection \<open>FeatureTree.add\_node\<close>

definition add_child :: "string \<Rightarrow> FeatureNode \<Rightarrow> FeatureNode" where
  "add_child c n =
     (if c \<notin> set (child_ids n) then n\<lparr>child_ids := child_ids n @ [c]\<rparr> else n)"

definition add_node :: "FeatureTree \<Rightarrow> FeatureNode \<Rightarrow> string option \<Rightarrow> FeatureTree" where
  "add_node T node parent_id =
     (let ns1 = AList.update (node_id node) node (nodes T);
          order1 = regeneration_order T @ [node_id node];
          ns2 = (case parent_id of
                   None \<Rightarrow> ns1
                 | Some p \<Rightarrow>
                     (if p \<noteq> [] then
                        (case map_of ns1 p of
                           None \<Rightarrow> ns1
                         | Some pn \<Rightarrow> AList.update p (add_child (node_id node) pn) ns1)
                      else ns1));
          root1 = (if \<not> truthy (root_node_id T) then Some (node_id node) else root_node_id T)
      in T\<lparr>nodes := ns2, regeneration_order := order1, root_node_id := root1\<rparr>)"

subsection \<open>FeatureTree.remove\_node\<close>

text \<open>
  The method calls itself on every child before it deletes the node. The first argument
  bounds the depth of these calls, as the interpreter's recursion limit does: at depth
  zero the call raises \<open>RecursionError\<close>.
\<close>

definition drop_child :: "string \<Rightarrow> FeatureNode \<Rightarrow> FeatureNode" where
  "drop_child c n =
     (if c \<in> set (child_ids n) then n\<lparr>child_ids := remove1 c (child_ids n)\<rparr> else n)"

definition remove_finish :: "FeatureTree \<Rightarrow> string \<Rightarrow> py_exn + FeatureTree" where
  "remove_finish T nid =
     (let ns1 = map (\<lambda>(k, n). (k, drop_child nid n)) (nodes T);
          order1 = (if nid \<in> set (regeneration_order T)
                    then remove1 nid (regeneration_order T) else regeneration_order T)
      in if nid \<notin> set (dict_keys ns1) then Inl KeyError
         else
           Inr (T\<lparr>nodes := AList.delete nid ns1,
                  regeneration_order := order1,
                  root_node_id :=
                    (if root_node_id T = Some nid
                     then (case order1 of [] \<Rightarrow> None | x # _ \<Rightarrow> Some x)
                     else root_node_id T)\<rparr>))"

fun remove_node :: "nat \<Rightarrow> FeatureTree \<Rightarrow> string \<Rightarrow> py_exn + FeatureTree"
  and remove_children :: "nat \<Rightarrow> FeatureTree \<Rightarrow> string list \<Rightarrow> py_exn + FeatureTree"
where
  "remove_node 0 T nid = Inl RecursionError"
| "remove_node (Suc d) T nid =
     (case map_of (nodes T) nid of
        None \<Rightarrow> Inr T
      | Some node \<Rightarrow>
          (case remove_children d T (child_ids node) of
             Inl e \<Rightarrow> Inl e
           | Inr T1 \<Rightarrow> remove_finish T1 nid))"
| "remove_children d T [] = Inr T"
| "remove_children d T (c # cs) =
     (case remove_node d T c of
        Inl e \<Rightarrow> Inl e
      | Inr T1 \<Rightarrow> remove_children d T1 cs)"

text \<open>The constructors with the defaults of the two classes.\<close>

definition FeatureTree_new :: "string \<Rightarrow> int \<Rightarrow> string \<Rightarrow> FeatureTree" where
  "FeatureTree_new pid ver usr =
     \<lparr>project_id = pid, version = ver, tree_name = ''Feature Tree'', created_by = usr,
      root_node_id = None, nodes = [], regeneration_order = [], global_parameters = [],
      generated_code = None, dirty = False, needs_full_regeneration = False\<rparr>"

definition FeatureNode_new :: "string \<Rightarrow> string \<Rightarrow> FeatureType \<Rightarrow> FeatureNode" where
  "FeatureNode_new i nm ft =
     \<lparr>node_id = i, node_name = nm, feature_type = ft, parameters = [],
      parent_references = [], child_ids = [], code_fragment = None\<rparr>"

definition ref_to :: "string \<Rightarrow> FeatureReference" where
  "ref_to i = \<lparr>feature_id = i, entity_type = ''feature''\<rparr>"

subsection \<open>Storage service: remove\_node\_from\_tree (app/services/feature\_tree\_storage.py)\<close>

text \<open>The part of the method after the tree has been loaded and before it is saved.\<close>

definition remove_node_from_tree :: "nat \<Rightarrow> FeatureTree \<Rightarrow> string \<Rightarrow> py_exn + FeatureTree" where
  "remove_node_from_tree d T nid =
     (if nid \<notin> set (dict_keys (nodes T)) then Inl ValueError
      else
        (case remove_node d T nid of
           Inl e \<Rightarrow> Inl e
         | Inr T1 \<Rightarrow> Inr (T1\<lparr>dirty := True, needs_full_regeneration := True\<rparr>)))"

section \<open>Dependency resolver (app/services/feature\_tree\_code\_generator.py)\<close>

type_synonym dep_graph = "(string \<times> string list) list"

text \<open>
  \<open>_build_dependency_graph\<close>: every node id gets the empty list, then every parent
  reference whose target is a key of the graph appends the referring node to the
  target's list.
\<close>

fun graph_add_refs :: "string \<Rightarrow> FeatureReference list \<Rightarrow> dep_graph \<Rightarrow> dep_graph" where
  "graph_add_refs nid [] g = g"
| "graph_add_refs nid (r # rs) g =
     graph_add_refs nid rs
       (case map_of g (feature_id r) of
          None \<Rightarrow> g
        | Some ds \<Rightarrow> AList.update (feature_id r) (ds @ [nid]) g)"

definition build_dependency_graph :: "FeatureTree \<Rightarrow> dep_graph" where
  "build_dependency_graph T =
     fold (\<lambda>(nid, node) g. graph_add_refs nid (parent_references node) g) (nodes T)
       (fold (\<lambda>(nid, node) g. AList.update nid [] g) (nodes T) [])"

text \<open>
  \<open>_resolve_dependencies\<close>, Kahn's algorithm. The in-degree of a node counts its parent
  references whose target is a key of \<open>in_degree\<close>.
\<close>

type_synonym in_degree = "(string \<times> int) list"

fun count_refs :: "string \<Rightarrow> FeatureReference list \<Rightarrow> in_degree \<Rightarrow> py_exn + in_degree" where
  "count_refs nid [] deg = Inr deg"
| "count_refs nid (r # rs) deg =
     (if feature_id r \<in> set (dict_keys deg) then
        (case map_of deg nid of
           None \<Rightarrow> Inl KeyError
         | Some v \<Rightarrow> count_refs nid rs (AList.update nid (v + 1) deg))
      else count_refs nid rs deg)"

fun count_all_refs :: "node_dict \<Rightarrow> in_degree \<Rightarrow> py_exn + in_degree" where
  "count_all_refs [] deg = Inr deg"
| "count_all_refs ((nid, node) # ns) deg =
     (case count_refs nid (parent_references node) deg of
        Inl e \<Rightarrow> Inl e
      | Inr deg1 \<Rightarrow> count_all_refs ns deg1)"

definition initial_in_degree :: "FeatureTree \<Rightarrow> py_exn + in_degree" where
  "initial_in_degree T =
     count_all_refs (nodes T) (fold (\<lambda>(nid, node) deg. AList.update nid 0 deg) (nodes T) [])"

text \<open>The inner loop over the dependents of the node that was dequeued.\<close>

fun dec_dependents ::
  "string list \<Rightarrow> in_degree \<Rightarrow> string list \<Rightarrow> py_exn + (in_degree \<times> string list)" where
  "dec_dependents [] deg queue = Inr (deg, queue)"
| "dec_dependents (d # ds) deg queue =
     (case map_of deg d of
        None \<Rightarrow> Inl KeyError
      | Some v \<Rightarrow>
          dec_dependents ds (AList.update d (v - 1) deg)
            (if v - 1 = 0 then queue @ [d] else queue))"

text \<open>
  The number of entries that can still reach zero; with the length of the queue it
  bounds the iterations of the while loop.
\<close>

definition pending :: "in_degree \<Rightarrow> nat" where
  "pending deg = length (filter (\<lambda>kv. 0 < snd kv) deg)"

lemma pending_update:
  "map_of deg d = Some v \<Longrightarrow>
     pending (AList.update d (v - 1) deg) = (if v = 1 then pending deg - 1 else pending deg) \<and>
     (v = 1 \<longrightarrow> 0 < pending deg)"
proof (induction deg)
  case Nil
  then show ?case by simp
next
  case (Cons kv deg)
  obtain k w where kv: "kv = (k, w)" by (cases kv)
  show ?case
  proof (cases "k = d")
    case True
    with Cons.prems kv have "w = v" by simp
    with True kv show ?thesis by (auto simp: pending_def)
  next
    case False
    with Cons.prems kv have "map_of deg d = Some v" by simp
    from Cons.IH[OF this] False kv show ?thesis by (auto simp: pending_def)
  qed
qed

lemma dec_dependents_pending:
  "dec_dependents ds deg queue = Inr (deg', queue') \<Longrightarrow>
     length queue' + pending deg' = length queue + pending deg"
proof (induction ds arbitrary: deg queue)
  case Nil
  then show ?case by simp
next
  case (Cons d ds)
  from Cons.prems obtain v where v: "map_of deg d = Some v"
    by (cases "map_of deg d") auto
  with Cons.prems have
    "dec_dependents ds (AList.update d (v - 1) deg) (if v - 1 = 0 then queue @ [d] else queue)
       = Inr (deg', queue')"
    by simp
  from Cons.IH[OF this] pending_update[OF v] show ?case
    by (auto split: if_splits)
qed

function kahn_loop ::
  "dep_graph \<Rightarrow> in_degree \<Rightarrow> string list \<Rightarrow> string list \<Rightarrow> py_exn + string list" where
  "kahn_loop g deg [] order = Inr order"
| "kahn_loop g deg (current # queue) order =
     (case map_of g current of
        None \<Rightarrow> kahn_loop g deg queue (order @ [current])
      | Some ds \<Rightarrow>
          (case dec_dependents ds deg queue of
             Inl e \<Rightarrow> Inl e
           | Inr (deg1, queue1) \<Rightarrow> kahn_loop g deg1 queue1 (order @ [current])))"
  by pat_completeness auto
termination
proof (relation "measure (\<lambda>(g, deg, queue, order). length queue + pending deg)")
  show "wf (measure (\<lambda>(g, deg, queue, order). length queue + pending deg))" by simp
next
  fix g :: dep_graph and deg :: in_degree and current :: string and queue order :: "string list"
  show "((g, deg, queue, order @ [current]), (g, deg, current # queue, order))
          \<in> measure (\<lambda>(g, deg, queue, order). length queue + pending deg)"
    by simp
next
  fix g :: dep_graph and deg deg1 :: in_degree and current :: string
    and queue order ds queue1 :: "string list" and x
  assume "dec_dependents ds deg queue = Inr x" "(deg1, queue1) = x"
  then have "dec_dependents ds deg queue = Inr (deg1, queue1)" by simp
  from dec_dependents_pending[OF this]
  show "((g, deg1, queue1, order @ [current]), (g, deg, current # queue, order))
          \<in> measure (\<lambda>(g, deg, queue, order). length queue + pending deg)"
    by simp
qed

text \<open>
  The method assigns \<open>self.resolved_order\<close>; the model returns it, together with the
  messages logged at error level. When fewer nodes were ordered than the tree has, the
  method itself falls back to the tree's stored regeneration order.
\<close>

definition resolve_dependencies ::
  "FeatureTree \<Rightarrow> dep_graph \<Rightarrow> py_exn + (string list \<times> string list)" where
  "resolve_dependencies T g =
     (case initial_in_degree T of
        Inl e \<Rightarrow> Inl e
      | Inr deg \<Rightarrow>
          (case kahn_loop g deg (map fst (filter (\<lambda>(nid, degree). degree = 0) deg)) [] of
             Inl e \<Rightarrow> Inl e
           | Inr order \<Rightarrow>
               (if length order \<noteq> length (nodes T)
                then Inr (regeneration_order T, [''Cyclic dependency detected in feature tree!''])
                else Inr (order, []))))"

definition resolve :: "FeatureTree \<Rightarrow> py_exn + (string list \<times> string list)" where
  "resolve T = resolve_dependencies T (build_dependency_graph T)"

subsection \<open>Notions used to state the resolver's properties\<close>

definition dependents_of :: "node_dict \<Rightarrow> string \<Rightarrow> string list" where
  "dependents_of ns p =
     concat (map (\<lambda>(k, n). map (\<lambda>r. k) (filter (\<lambda>r. feature_id r = p) (parent_references n))) ns)"

definition cnt :: "string set \<Rightarrow> FeatureNode \<Rightarrow> nat" where
  "cnt S n = length (filter (\<lambda>r. feature_id r \<in> S) (parent_references n))"

definition topo_order :: "node_dict \<Rightarrow> string list \<Rightarrow> bool" where
  "topo_order ns order =
     (\<forall>i < length order. \<forall>n. map_of ns (order ! i) = Some n \<longrightarrow>
        (\<forall>r \<in> set (parent_references n).
           feature_id r \<in> fst ` set ns \<longrightarrow> feature_id r \<in> set (take i order)))"

definition kahn_inv :: "node_dict \<Rightarrow> in_degree \<Rightarrow> string list \<Rightarrow> string list \<Rightarrow> bool" where
  "kahn_inv ns deg queue order =
     (map fst deg = map fst ns \<and> distinct (order @ queue) \<and>
      (\<forall>k n. map_of ns k = Some n \<longrightarrow>
          map_of deg k = Some (int (cnt (fst ` set ns - set order) n))) \<and>
      set (order @ queue) =
        {k. \<exists>n. map_of ns k = Some n \<and> cnt (fst ` set ns - set order) n = 0} \<and>
      topo_order ns order)"

text \<open>
  The parent-reference graph restricted to the nodes of the tree: an edge from the
  target of a reference to the node that holds it.
\<close>

definition dep_edges :: "FeatureTree \<Rightarrow> (string \<times> string) list" where
  "dep_edges T =
     concat (map (\<lambda>(k, n). map (\<lambda>r. (feature_id r, k))
                   (filter (\<lambda>r. feature_id r \<in> set (dict_keys (nodes T))) (parent_references n)))
        (nodes T))"

definition unique_keys :: "FeatureTree \<Rightarrow> bool" where
  "unique_keys T = distinct (dict_keys (nodes T))"

definition refs_present :: "FeatureTree \<Rightarrow> bool" where
  "refs_present T =
     list_all (\<lambda>(k, n). list_all (\<lambda>r. feature_id r \<in> set (dict_keys (nodes T)))
                  (parent_references n)) (nodes T)"

text \<open>Two small trees: a workplane with a box on it, and a node that refers to itself.\<close>

definition ex_chain_tree :: FeatureTree where
  "ex_chain_tree =
     add_node
       (add_node (FeatureTree_new ''p'' 1 ''u'') (FeatureNode_new ''w'' ''XY'' WORKPLANE) None)
       ((FeatureNode_new ''b'' ''Box 1'' BOX)\<lparr>parent_references := [ref_to ''w'']\<rparr>)
       (Some ''w'')"

definition ex_cyclic_tree :: FeatureTree where
  "ex_cyclic_tree =
     (FeatureTree_new ''p'' 1 ''u'')
       \<lparr>nodes := [(''a'', (FeatureNode_new ''a'' ''A'' BOX)\<lparr>parent_references := [ref_to ''a'']\<rparr>)],
        regeneration_order := [''a'']\<rparr>"

section \<open>Validator (app/services/feature\_tree\_validator.py)\<close>

text \<open>
  The tables of the validator. Python holds them as sets of enum members; a list in the
  order of the source's set display stands for each set. Only the text of one error
  message depends on that order, which the interpreter does not fix.
\<close>

definition valid_parent_types :: "FeatureType \<Rightarrow> FeatureType list option" where
  "valid_parent_types =
     map_of
       [(SKETCH, [WORKPLANE, BOX, CYLINDER, SPHERE, EXTRUDE, REVOLVE]),
        (EXTRUDE, [SKETCH]),
        (REVOLVE, [SKETCH]),
        (BOX, [WORKPLANE]),
        (CYLINDER, [WORKPLANE]),
        (SPHERE, [WORKPLANE]),
        (FILLET, [BOX, CYLINDER, SPHERE, EXTRUDE, REVOLVE, UNION, DIFFERENCE]),
        (CHAMFER, [BOX, CYLINDER, SPHERE, EXTRUDE, REVOLVE, UNION, DIFFERENCE]),
        (UNION, [BOX, CYLINDER, SPHERE, EXTRUDE, REVOLVE]),
        (DIFFERENCE, [BOX, CYLINDER, SPHERE, EXTRUDE, REVOLVE])]"

definition solid_types :: "FeatureType list" where
  "solid_types = [BOX, CYLINDER, SPHERE, EXTRUDE, REVOLVE, UNION, DIFFERENCE]"

definition surface_operation_types :: "FeatureType list" where
  "surface_operation_types = [FILLET, CHAMFER]"

definition boolean_operation_types :: "FeatureType list" where
  "boolean_operation_types = [UNION, DIFFERENCE]"

text \<open>What an f-string prints: a natural number in decimal, a list of plain strings.\<close>

definition digit_char :: "nat \<Rightarrow> char" where
  "digit_char n = ''0123456789'' ! n"

fun str_nat :: "nat \<Rightarrow> string" where
  "str_nat n = (if n < 10 then [digit_char n] else str_nat (n div 10) @ [digit_char (n mod 10)])"

fun join :: "string \<Rightarrow> string list \<Rightarrow> string" where
  "join sep [] = []"
| "join sep [x] = x"
| "join sep (x # y # ys) = x @ sep @ join sep (y # ys)"

definition str_list_of_values :: "string list \<Rightarrow> string" where
  "str_list_of_values vs = ''['' @ join '', '' (map (\<lambda>v. [CHR 0x27] @ v @ [CHR 0x27]) vs) @ '']''"

subsection \<open>\_validate\_parent\_references\<close>

definition invalid_parent_message :: "FeatureType \<Rightarrow> FeatureType \<Rightarrow> FeatureType list \<Rightarrow> string" where
  "invalid_parent_message child parent valid_parents =
     ''Invalid parent type: '' @ feature_type_value child @ '' cannot be created from '' @
     feature_type_value parent @ ''. Valid parent types: '' @
     str_list_of_values (map feature_type_value valid_parents)"

fun check_parent_references :: "FeatureTree \<Rightarrow> FeatureNode \<Rightarrow> FeatureReference list \<Rightarrow> string list" where
  "check_parent_references T new_node [] = []"
| "check_parent_references T new_node (r # rs) =
     (case map_of (nodes T) (feature_id r) of
        None \<Rightarrow> [''Referenced parent node '' @ feature_id r @ '' does not exist in tree'']
      | Some parent_node \<Rightarrow>
          (case valid_parent_types (feature_type new_node) of
             None \<Rightarrow> []
           | Some valid_parents \<Rightarrow>
               (if feature_type parent_node \<notin> set valid_parents
                then [invalid_parent_message (feature_type new_node) (feature_type parent_node)
                        valid_parents]
                else [])))
     @ check_parent_references T new_node rs"

definition validate_parent_references ::
  "FeatureTree \<Rightarrow> FeatureNode \<Rightarrow> string option \<Rightarrow> string list" where
  "validate_parent_references T new_node parent_id =
     (case parent_id of
        None \<Rightarrow> check_parent_references T new_node (parent_references new_node)
      | Some p \<Rightarrow>
          (if p \<noteq> [] \<and> p \<notin> set (dict_keys (nodes T))
           then [''Parent node '' @ p @ '' does not exist in tree'']
           else check_parent_references T new_node (parent_references new_node)))"

subsection \<open>\_validate\_semantic\_constraints\<close>

text \<open>
  The method collects warnings, writes them to the log and returns its list \<open>errors\<close>,
  to which no statement appends.
\<close>

definition validate_semantic_constraints ::
  "FeatureTree \<Rightarrow> FeatureNode \<Rightarrow> string option \<Rightarrow> string list" where
  "validate_semantic_constraints T new_node parent_id = []"

subsection \<open>\_create\_temp\_tree\_with\_node\<close>

definition create_temp_tree_with_node :: "FeatureTree \<Rightarrow> FeatureNode \<Rightarrow> FeatureTree" where
  "create_temp_tree_with_node T new_node =
     (FeatureTree_new (project_id T) (version T) (created_by T))
       \<lparr>tree_name := tree_name T,
        nodes := AList.update (node_id new_node) new_node (nodes T),
        regeneration_order := regeneration_order T @ [node_id new_node],
        global_parameters := global_parameters T\<rparr>"

subsection \<open>\_validate\_dependencies\<close>

text \<open>
  The nested function \<open>has_cycle\<close> reads and writes the two sets \<open>visited\<close> and
  \<open>rec_stack\<close> of the enclosing call: they are passed in and returned. A call that
  returns \<open>True\<close> leaves its id on \<open>rec_stack\<close>, as the early return does.
\<close>

type_synonym dfs_state = "string set \<times> string set"

function (sequential) has_cycle :: "node_dict \<Rightarrow> string \<Rightarrow> dfs_state \<Rightarrow> bool \<times> dfs_state"
  and has_cycle_refs :: "node_dict \<Rightarrow> FeatureReference list \<Rightarrow> dfs_state \<Rightarrow> bool \<times> dfs_state"
where
  "has_cycle ns nid (visited, rec_stack) =
     (if nid \<in> rec_stack then (True, (visited, rec_stack))
      else if nid \<in> visited then (False, (visited, rec_stack))
      else
        (case map_of ns nid of
           None \<Rightarrow> (False, (insert nid visited, insert nid rec_stack - {nid}))
         | Some node \<Rightarrow>
             (case has_cycle_refs ns (parent_references node)
                     (insert nid visited, insert nid rec_stack) of
                (True, st) \<Rightarrow> (True, st)
              | (False, (visited1, rec_stack1)) \<Rightarrow> (False, (visited1, rec_stack1 - {nid})))))"
| "has_cycle_refs ns [] st = (False, st)"
| "has_cycle_refs ns (r # rs) st =
     (case has_cycle ns (feature_id r) st of
        (True, st1) \<Rightarrow> (True, st1)
      | (False, st1) \<Rightarrow> has_cycle_refs ns rs st1)"
  by pat_completeness auto

lemma has_cycle_visited_grows:
  "has_cycle_has_cycle_refs_dom (Inl (ns, nid, st)) \<Longrightarrow>
     fst st \<subseteq> fst (snd (has_cycle ns nid st))"
  "has_cycle_has_cycle_refs_dom (Inr (ns, rs, st)) \<Longrightarrow>
     fst st \<subseteq> fst (snd (has_cycle_refs ns rs st))"
proof (induction ns nid st and ns rs st rule: has_cycle_has_cycle_refs.pinduct)
  case (1 ns nid visited rec_stack)
  show ?case
  proof (cases "nid \<in> rec_stack \<or> nid \<in> visited")
    case True
    then show ?thesis using "1.hyps" by (auto simp: has_cycle.psimps)
  next
    case False
    show ?thesis
    proof (cases "map_of ns nid")
      case None
      then show ?thesis using "1.hyps" False by (auto simp: has_cycle.psimps)
    next
      case (Some node)
      from "1.IH"[OF _ _ Some] False
      have ih: "insert nid visited \<subseteq>
          fst (snd (has_cycle_refs ns (parent_references node) (insert nid visited, insert nid rec_stack)))"
        by simp
      obtain b v s where e: "has_cycle_refs ns (parent_references node)
          (insert nid visited, insert nid rec_stack) = (b, v, s)" by (metis prod_cases3)
      with ih have "visited \<subseteq> v" by auto
      then show ?thesis using "1.hyps" False Some e by (cases b) (auto simp: has_cycle.psimps)
    qed
  qed
next
  case (2 ns st)
  then show ?case by (simp add: has_cycle_refs.psimps)
next
  case (3 ns r rs st)
  obtain b st1 where e: "has_cycle ns (feature_id r) st = (b, st1)"
    by (cases "has_cycle ns (feature_id r) st")
  from "3.IH"(1) e have s1: "fst st \<subseteq> fst st1" by simp
  show ?case
  proof (cases b)
    case True
    then show ?thesis using "3.hyps" e s1 by (simp add: has_cycle_refs.psimps)
  next
    case False
    from "3.IH"(2)[OF e[symmetric]] False have "fst st1 \<subseteq> fst (snd (has_cycle_refs ns rs st1))"
      by simp
    then show ?thesis using "3.hyps" e s1 False by (auto simp: has_cycle_refs.psimps)
  qed
qed

lemma unvisited_card_less:
  assumes "map_of ns nid = Some node" "nid \<notin> visited"
  shows "card (fst ` set ns - insert nid visited) < card (fst ` set ns - visited)"
proof -
  from assms(1) have "nid \<in> fst ` set ns" by (force dest: map_of_SomeD simp: image_iff)
  with assms(2) have "fst ` set ns - insert nid visited \<subset> fst ` set ns - visited" by auto
  then show ?thesis by (simp add: psubset_card_mono)
qed

lemma unvisited_card_mono:
  "visited \<subseteq> visited1 \<Longrightarrow> card (fst ` set ns - visited1) \<le> card (fst ` set ns - visited)"
  by (rule card_mono) auto

termination has_cycle
proof (relation "inv_image (less_than <*lex*> less_than)
         (\<lambda>x. case x of
            Inl (ns, nid, st) \<Rightarrow> (card (fst ` set ns - fst st), 0::nat)
          | Inr (ns, rs, st) \<Rightarrow> (card (fst ` set ns - fst st), Suc (length rs)))", goal_cases)
  case 1
  show ?case by (intro wf_inv_image wf_lex_prod wf_less_than)
next
  case (2 ns nid visited rec_stack node)
  then show ?case by (simp add: unvisited_card_less)
next
  case (3 ns r rs st)
  then show ?case by simp
next
  case (4 ns r rs st x st1)
  from has_cycle_visited_grows(1)[OF 4(3)] 4(1)[symmetric] have "fst st \<subseteq> fst st1" by simp
  from unvisited_card_mono[OF this, of ns] show ?case by auto
qed

declare has_cycle.simps [simp del]

definition validate_dependencies :: "FeatureTree \<Rightarrow> FeatureNode \<Rightarrow> string list" where
  "validate_dependencies T new_node =
     (let temp_tree = create_temp_tree_with_node T new_node
      in if fst (has_cycle (nodes temp_tree) (node_id new_node) ({}, {}))
         then [''Adding node '' @ node_id new_node @ '' would create a circular dependency'']
         else [])"

subsection \<open>\_validate\_boolean\_operation\<close>

fun solid_parents :: "FeatureTree \<Rightarrow> FeatureReference list \<Rightarrow> FeatureNode list" where
  "solid_parents T [] = []"
| "solid_parents T (r # rs) =
     (case map_of (nodes T) (feature_id r) of
        None \<Rightarrow> []
      | Some parent_node \<Rightarrow>
          (if feature_type parent_node \<in> set solid_types then [parent_node] else []))
     @ solid_parents T rs"

definition boolean_arity_message :: "FeatureType \<Rightarrow> nat \<Rightarrow> string" where
  "boolean_arity_message t n =
     ''Boolean operation '' @ feature_type_value t @ '' requires 2 solid parents, but only '' @
     str_nat n @ '' found. Add more solid parent references.''"

definition validate_boolean_operation :: "FeatureTree \<Rightarrow> FeatureNode \<Rightarrow> string list" where
  "validate_boolean_operation T new_node =
     (if feature_type new_node \<notin> set boolean_operation_types then []
      else
        (let n = length (solid_parents T (parent_references new_node))
         in if n < 2 then [boolean_arity_message (feature_type new_node) n] else []))"

subsection \<open>\_validate\_result\_impact\<close>

text \<open>
  \<open>_node_affects_result\<close> builds the dictionary \<open>dependents\<close> with the two loops of
  \<open>_build_dependency_graph\<close>, then searches forward from the node. The nested function
  \<open>traces_to_solid\<close> shares the set \<open>visited\<close>.
\<close>

definition dependents_get :: "dep_graph \<Rightarrow> string \<Rightarrow> string list" where
  "dependents_get g k = (case map_of g k of None \<Rightarrow> [] | Some ds \<Rightarrow> ds)"

function (sequential) traces_to_solid ::
    "node_dict \<Rightarrow> dep_graph \<Rightarrow> string \<Rightarrow> string set \<Rightarrow> bool \<times> string set"
  and traces_any ::
    "node_dict \<Rightarrow> dep_graph \<Rightarrow> string list \<Rightarrow> string set \<Rightarrow> bool \<times> string set"
where
  "traces_to_solid ns g current_id visited =
     (if current_id \<in> visited then (False, visited)
      else
        (case map_of ns current_id of
           None \<Rightarrow> (False, insert current_id visited)
         | Some current_node \<Rightarrow>
             (if feature_type current_node \<in> set solid_types
                 \<and> length (dependents_get g current_id) = 0
              then (True, insert current_id visited)
              else traces_any ns g (dependents_get g current_id) (insert current_id visited))))"
| "traces_any ns g [] visited = (False, visited)"
| "traces_any ns g (d # ds) visited =
     (case traces_to_solid ns g d visited of
        (True, visited1) \<Rightarrow> (True, visited1)
      | (False, visited1) \<Rightarrow> traces_any ns g ds visited1)"
  by pat_completeness auto

lemma traces_visited_grows:
  "traces_to_solid_traces_any_dom (Inl (ns, g, c, visited)) \<Longrightarrow>
     visited \<subseteq> snd (traces_to_solid ns g c visited)"
  "traces_to_solid_traces_any_dom (Inr (ns, g, ds, visited)) \<Longrightarrow>
     visited \<subseteq> snd (traces_any ns g ds visited)"
proof (induction ns g c visited and ns g ds visited rule: traces_to_solid_traces_any.pinduct)
  case (1 ns g c visited)
  show ?case
  proof (cases "c \<in> visited")
    case True
    then show ?thesis using "1.hyps" by (simp add: traces_to_solid.psimps)
  next
    case False
    show ?thesis
    proof (cases "map_of ns c")
      case None
      then show ?thesis using "1.hyps" False by (auto simp: traces_to_solid.psimps)
    next
      case (Some node)
      show ?thesis
      proof (cases "feature_type node \<in> set solid_types \<and> length (dependents_get g c) = 0")
        case True
        then show ?thesis using "1.hyps" False Some by (auto simp: traces_to_solid.psimps)
      next
        case F2: False
        from "1.IH"[OF False Some F2]
        have "insert c visited \<subseteq> snd (traces_any ns g (dependents_get g c) (insert c visited))" .
        then show ?thesis using "1.hyps" False Some F2 by (auto simp: traces_to_solid.psimps)
      qed
    qed
  qed
next
  case (2 ns g visited)
  then show ?case by (simp add: traces_any.psimps)
next
  case (3 ns g d ds visited)
  obtain b v1 where e: "traces_to_solid ns g d visited = (b, v1)"
    by (cases "traces_to_solid ns g d visited")
  from "3.IH"(1) e have s1: "visited \<subseteq> v1" by simp
  show ?case
  proof (cases b)
    case True
    then show ?thesis using "3.hyps" e s1 by (simp add: traces_any.psimps)
  next
    case False
    from "3.IH"(2)[OF e[symmetric]] False have "v1 \<subseteq> snd (traces_any ns g ds v1)" by simp
    then show ?thesis using "3.hyps" e s1 False by (auto simp: traces_any.psimps)
  qed
qed

termination traces_to_solid
proof (relation "inv_image (less_than <*lex*> less_than)
         (\<lambda>x. case x of
            Inl (ns, g, c, visited) \<Rightarrow> (card (fst ` set ns - visited), 0::nat)
          | Inr (ns, g, ds, visited) \<Rightarrow> (card (fst ` set ns - visited), Suc (length ds)))",
       goal_cases)
  case 1
  show ?case by (intro wf_inv_image wf_lex_prod wf_less_than)
next
  case (2 ns g c visited node)
  then show ?case by (simp add: unvisited_card_less)
next
  case (3 ns g d ds visited)
  then show ?case by simp
next
  case (4 ns g d ds visited x visited1)
  from traces_visited_grows(1)[OF 4(3)] 4(1)[symmetric] have "visited \<subseteq> visited1" by simp
  from unvisited_card_mono[OF this, of ns] show ?case by auto
qed

declare traces_to_solid.simps [simp del]

definition node_affects_result :: "FeatureTree \<Rightarrow> string \<Rightarrow> bool" where
  "node_affects_result T nid =
     fst (traces_to_solid (nodes T) (build_dependency_graph T) nid {})"

definition no_impact_message :: "FeatureNode \<Rightarrow> string" where
  "no_impact_message n =
     ''Node '' @ node_name n @ '' ('' @ feature_type_value (feature_type n) @
     '') will not affect the final model result. Ensure it'' @ [CHR 0x27] @
     ''s properly connected to the dependency chain.''"

definition validate_result_impact ::
  "FeatureTree \<Rightarrow> FeatureNode \<Rightarrow> string option \<Rightarrow> string list" where
  "validate_result_impact T new_node parent_id =
     (let temp_tree = create_temp_tree_with_node T new_node
      in if \<not> node_affects_result temp_tree (node_id new_node)
            \<and> feature_type new_node \<notin> {WORKPLANE, SKETCH}
         then [no_impact_message new_node]
         else [])"

subsection \<open>validate\_node\_addition\<close>

definition validate_node_addition ::
  "FeatureTree \<Rightarrow> FeatureNode \<Rightarrow> string option \<Rightarrow> bool \<times> string list" where
  "validate_node_addition T new_node parent_id =
     (let errors =
            (if node_id new_node \<in> set (dict_keys (nodes T))
             then [''Node with ID '' @ node_id new_node @ '' already exists in tree'']
             else [])
            @ validate_parent_references T new_node parent_id
            @ validate_semantic_constraints T new_node parent_id
            @ validate_dependencies T new_node
            @ (if feature_type new_node \<in> set boolean_operation_types
               then validate_boolean_operation T new_node else [])
            @ validate_result_impact T new_node parent_id
      in (length errors = 0, errors))"

text \<open>A workplane with a sketch on it.\<close>

definition ex_sketch_tree :: FeatureTree where
  "ex_sketch_tree =
     add_node
       (add_node (FeatureTree_new ''p'' 1 ''u'') (FeatureNode_new ''w'' ''XY'' WORKPLANE) None)
       ((FeatureNode_new ''s'' ''Profile'' SKETCH)\<lparr>parent_references := [ref_to ''w'']\<rparr>)
       (Some ''w'')"

section \<open>Tree validation and the storage service's add\<close>

subsection \<open>FeatureTree.get\_node\_dependencies and validate\_tree (app/models/feature\_tree.py)\<close>

text \<open>
  \<open>get_node_dependencies\<close> collects the ids in a set and shares the set \<open>visited\<close> with
  its recursive calls; it returns the set as a list, of which \<open>validate_tree\<close> only asks
  membership. The model returns the set and the updated \<open>visited\<close>.
\<close>

function (sequential) get_node_dependencies ::
    "node_dict \<Rightarrow> string \<Rightarrow> string set \<Rightarrow> string set \<times> string set"
  and dependencies_of_refs ::
    "node_dict \<Rightarrow> FeatureReference list \<Rightarrow> string set \<Rightarrow> string set \<times> string set"
where
  "get_node_dependencies ns nid visited =
     (case map_of ns nid of
        None \<Rightarrow> ({}, visited)
      | Some node \<Rightarrow>
          (if nid \<in> visited then ({}, visited)
           else dependencies_of_refs ns (parent_references node) (insert nid visited)))"
| "dependencies_of_refs ns [] visited = ({}, visited)"
| "dependencies_of_refs ns (r # rs) visited =
     (case map_of ns (feature_id r) of
        None \<Rightarrow> dependencies_of_refs ns rs visited
      | Some parent \<Rightarrow>
          (case get_node_dependencies ns (feature_id r) visited of
             (deps1, visited1) \<Rightarrow>
               (case dependencies_of_refs ns rs visited1 of
                  (deps2, visited2) \<Rightarrow> (insert (feature_id r) (deps1 \<union> deps2), visited2))))"
  by pat_completeness auto

lemma dependencies_visited_grows:
  "get_node_dependencies_dependencies_of_refs_dom (Inl (ns, nid, visited)) \<Longrightarrow>
     visited \<subseteq> snd (get_node_dependencies ns nid visited)"
  "get_node_dependencies_dependencies_of_refs_dom (Inr (ns, rs, visited)) \<Longrightarrow>
     visited \<subseteq> snd (dependencies_of_refs ns rs visited)"
proof (induction ns nid visited and ns rs visited
    rule: get_node_dependencies_dependencies_of_refs.pinduct)
  case (1 ns nid visited)
  show ?case
  proof (cases "map_of ns nid")
    case None
    then show ?thesis using "1.hyps" by (simp add: get_node_dependencies.psimps)
  next
    case (Some node)
    show ?thesis
    proof (cases "nid \<in> visited")
      case True
      then show ?thesis using "1.hyps" Some by (simp add: get_node_dependencies.psimps)
    next
      case False
      from "1.IH"[OF Some False]
      have "insert nid visited \<subseteq>
              snd (dependencies_of_refs ns (parent_references node) (insert nid visited))" .
      then show ?thesis using "1.hyps" Some False
        by (auto simp: get_node_dependencies.psimps)
    qed
  qed
next
  case (2 ns visited)
  then show ?case by (simp add: dependencies_of_refs.psimps)
next
  case (3 ns r rs visited)
  show ?case
  proof (cases "map_of ns (feature_id r)")
    case None
    from "3.IH"(1)[OF None] show ?thesis using "3.hyps" None
      by (simp add: dependencies_of_refs.psimps)
  next
    case (Some parent)
    obtain d1 v1 where e1: "get_node_dependencies ns (feature_id r) visited = (d1, v1)"
      by (cases "get_node_dependencies ns (feature_id r) visited")
    obtain d2 v2 where e2: "dependencies_of_refs ns rs v1 = (d2, v2)"
      by (cases "dependencies_of_refs ns rs v1")
    from "3.IH"(2)[OF Some] e1 have s1: "visited \<subseteq> v1" by simp
    from "3.IH"(3)[OF Some e1[symmetric]] e2 have s2: "v1 \<subseteq> v2" by simp
    show ?thesis using "3.hyps" Some e1 e2 s1 s2
      by (simp add: dependencies_of_refs.psimps)
  qed
qed

termination get_node_dependencies
proof (relation "inv_image (less_than <*lex*> less_than)
         (\<lambda>x. case x of
            Inl (ns, nid, visited) \<Rightarrow> (card (fst ` set ns - visited), 0::nat)
          | Inr (ns, rs, visited) \<Rightarrow> (card (fst ` set ns - visited), Suc (length rs)))",
       goal_cases)
  case 1
  show ?case by (intro wf_inv_image wf_lex_prod wf_less_than)
next
  case (2 ns nid visited node)
  then show ?case by (simp add: unvisited_card_less)
next
  case (3 ns r rs visited)
  then show ?case by simp
next
  case (4 ns r rs visited parent)
  then show ?case by simp
next
  case (5 ns r rs visited parent deps1 visited1)
  from dependencies_visited_grows(1)[OF 5(3)] 5(2)[symmetric] have "visited \<subseteq> visited1" by simp
  from unvisited_card_mono[OF this, of ns] show ?case by auto
qed

declare get_node_dependencies.simps [simp del]

definition validate_tree :: "FeatureTree \<Rightarrow> string list" where
  "validate_tree T =
     concat (map (\<lambda>k. if k \<in> fst (get_node_dependencies (nodes T) k {})
                      then [''Circular dependency detected for node '' @ k] else [])
               (dict_keys (nodes T)))
     @ concat (map (\<lambda>node.
                  concat (map (\<lambda>r. if feature_id r \<notin> set (dict_keys (nodes T))
                                    then [''Node '' @ node_id node @ '' references non-existent node ''
                                          @ feature_id r]
                                    else [])
                            (parent_references node)))
               (dict_values (nodes T)))
     @ (if set (regeneration_order T) \<noteq> set (dict_keys (nodes T))
        then [''Regeneration order doesn'' @ [CHR 0x27] @ ''t match node list''] else [])"

subsection \<open>Storage service: add\_node\_to\_tree (app/services/feature\_tree\_storage.py)\<close>

text \<open>The test \<open>sub in s\<close> on strings.\<close>

fun starts_with :: "string \<Rightarrow> string \<Rightarrow> bool" where
  "starts_with [] s = True"
| "starts_with (c # cs) [] = False"
| "starts_with (c # cs) (x # xs) = (c = x \<and> starts_with cs xs)"

fun str_contains :: "string \<Rightarrow> string \<Rightarrow> bool" where
  "str_contains sub [] = starts_with sub []"
| "str_contains sub (x # xs) = (starts_with sub (x # xs) \<or> str_contains sub xs)"

text \<open>
  The part of the method after the tree has been loaded and before it is saved. A
  rejected node and a tree that fails \<open>validate_tree\<close> after the addition raise
  \<open>ValueError\<close>.
\<close>

definition add_node_to_tree ::
  "FeatureTree \<Rightarrow> FeatureNode \<Rightarrow> string option \<Rightarrow> py_exn + FeatureTree" where
  "add_node_to_tree T node0 parent_id =
     (let node =
            (case parent_id of
               None \<Rightarrow> node0
             | Some p \<Rightarrow>
                 (if p \<noteq> [] \<and> p \<in> set (dict_keys (nodes T))
                     \<and> \<not> list_ex (\<lambda>r. feature_id r = p) (parent_references node0)
                  then node0\<lparr>parent_references := parent_references node0 @ [ref_to p]\<rparr>
                  else node0))
      in if \<not> (str_contains ''design_params'' (node_id node)
                \<and> node_name node = ''Design Parameters'')
            \<and> \<not> fst (validate_node_addition T node parent_id)
         then Inl ValueError
         else
           (let T1 = add_node T node parent_id
            in if validate_tree T1 \<noteq> [] then Inl ValueError
               else
                 Inr (T1\<lparr>dirty := True,
                        needs_full_regeneration :=
                          (feature_type_value (feature_type node)
                              \<in> set [''workplane'', ''sketch'', ''assembly_root'']
                           \<or> length (nodes T1) = 1)\<rparr>)))"

text \<open>A tree with one workplane.\<close>

definition ex_workplane_tree :: FeatureTree where
  "ex_workplane_tree =
     add_node (FeatureTree_new ''p'' 1 ''u'') (FeatureNode_new ''w'' ''XY'' WORKPLANE) None"

subsection \<open>Notions used to state what remove\_node leaves\<close>









section \<open>Patching a parameter in the script (app/services/cadam\_style\_parameter\_extractor.py)\<close>












section \<open>Code generator (app/services/feature\_tree\_code\_generator.py)\<close>





subsection \<open>\_format\_parameter\_value\<close>


subsection \<open>\_get\_variable\_name\<close>











subsection \<open>The base and the reference variable of a node\<close>













subsection \<open>\_generate\_node\_code\<close>










subsection \<open>generate\_cadquery\_code\<close>
















section \<open>Theorems\<close>

subsection \<open>The state flags (C9)\<close>

lemma remove_finish_flags:
  "remove_finish T nid = Inr T' \<Longrightarrow>
     dirty T' = dirty T \<and> needs_full_regeneration T' = needs_full_regeneration T"
  by (auto simp: remove_finish_def Let_def split: if_splits)

lemma remove_node_flags_aux:
  "remove_node d T nid = Inr T' \<Longrightarrow>
      dirty T' = dirty T \<and> needs_full_regeneration T' = needs_full_regeneration T"
  "remove_children d T cs = Inr T' \<Longrightarrow>
      dirty T' = dirty T \<and> needs_full_regeneration T' = needs_full_regeneration T"
proof (induction d T nid and d T cs arbitrary: T' and T' rule: remove_node_remove_children.induct)
  case (1 T nid)
  then show ?case by simp
next
  case (2 d T nid)
  show ?case
  proof (cases "map_of (nodes T) nid")
    case None
    with 2(2) show ?thesis by simp
  next
    case (Some node)
    show ?thesis
    proof (cases "remove_children d T (child_ids node)")
      case (Inl e)
      with 2(2) Some show ?thesis by simp
    next
      case (Inr T1)
      with 2(2) Some have "remove_finish T1 nid = Inr T'" by simp
      from remove_finish_flags[OF this] 2(1)[OF Some Inr] show ?thesis by simp
    qed
  qed
next
  case (3 d T)
  then show ?case by simp
next
  case (4 d T c cs)
  show ?case
  proof (cases "remove_node d T c")
    case (Inl e)
    with 4(3) show ?thesis by simp
  next
    case (Inr T1)
    with 4(3) have "remove_children d T1 cs = Inr T'" by simp
    from 4(2)[OF Inr this] 4(1)[OF Inr] show ?thesis by simp
  qed
qed

lemma add_node_flags:
  "dirty (add_node T n p) = dirty T \<and>
   needs_full_regeneration (add_node T n p) = needs_full_regeneration T"
  by (simp add: add_node_def Let_def)

lemma add_node_to_tree_flags:
  assumes "add_node_to_tree T n p = Inr T1"
  shows "dirty T1 \<and>
         (needs_full_regeneration T1 \<longleftrightarrow>
            feature_type n \<in> {WORKPLANE, SKETCH, ASSEMBLY_ROOT} \<or> length (nodes T1) = 1)"
proof -
  define node where "node =
     (case p of None \<Rightarrow> n
      | Some q \<Rightarrow>
          (if q \<noteq> [] \<and> q \<in> set (dict_keys (nodes T))
              \<and> \<not> list_ex (\<lambda>r. feature_id r = q) (parent_references n)
           then n\<lparr>parent_references := parent_references n @ [ref_to q]\<rparr> else n))"
  have ft: "feature_type node = feature_type n"
    by (cases p) (simp_all add: node_def)
  have v: "feature_type_value (feature_type n) \<in> set [''workplane'', ''sketch'', ''assembly_root'']
           \<longleftrightarrow> feature_type n \<in> {WORKPLANE, SKETCH, ASSEMBLY_ROOT}"
    by (cases "feature_type n") simp_all
  from assms have
    "T1 = (add_node T node p)\<lparr>dirty := True,
            needs_full_regeneration :=
              (feature_type_value (feature_type node)
                  \<in> set [''workplane'', ''sketch'', ''assembly_root'']
               \<or> length (nodes (add_node T node p)) = 1)\<rparr>"
    unfolding add_node_to_tree_def node_def[symmetric] Let_def
    by (simp split: if_splits)
  then have e: "dirty T1 \<and>
      (needs_full_regeneration T1 \<longleftrightarrow>
         feature_type_value (feature_type n) \<in> set [''workplane'', ''sketch'', ''assembly_root'']
         \<or> length (nodes T1) = 1)"
    using ft by simp
  show ?thesis using e unfolding v by blast
qed

lemma remove_node_from_tree_flags:
  "remove_node_from_tree d T nid = Inr T2 \<Longrightarrow> dirty T2 \<and> needs_full_regeneration T2"
  by (auto simp: remove_node_from_tree_def split: if_splits sum.splits)

lemma ex_workplane_tree_eq:
  "ex_workplane_tree =
     (FeatureTree_new ''p'' 1 ''u'')\<lparr>nodes := [(''w'', FeatureNode_new ''w'' ''XY'' WORKPLANE)],
        regeneration_order := [''w''], root_node_id := Some ''w''\<rparr>"
  by (simp add: ex_workplane_tree_def add_node_def FeatureTree_new_def FeatureNode_new_def Let_def)

lemma ex_chain_tree_eq:
  "ex_chain_tree =
     (FeatureTree_new ''p'' 1 ''u'')
       \<lparr>nodes := [(''w'', (FeatureNode_new ''w'' ''XY'' WORKPLANE)\<lparr>child_ids := [''b'']\<rparr>),
                  (''b'', (FeatureNode_new ''b'' ''Box 1'' BOX)\<lparr>parent_references := [ref_to ''w'']\<rparr>)],
        regeneration_order := [''w'', ''b''], root_node_id := Some ''w''\<rparr>"
  by (simp add: ex_chain_tree_def add_node_def FeatureTree_new_def FeatureNode_new_def Let_def
      add_child_def)

lemma ex_add_box_valid:
  "validate_node_addition (ex_workplane_tree\<lparr>needs_full_regeneration := f\<rparr>)
       ((FeatureNode_new ''b'' ''Box 1'' BOX)\<lparr>parent_references := [ref_to ''w'']\<rparr>) (Some ''w'')
     = (True, [])"
  by (simp add: ex_workplane_tree_eq validate_node_addition_def validate_parent_references_def
      validate_semantic_constraints_def validate_dependencies_def validate_result_impact_def
      validate_boolean_operation_def valid_parent_types_def
      create_temp_tree_with_node_def node_affects_result_def build_dependency_graph_def
      dependents_get_def boolean_operation_types_def solid_types_def
      FeatureTree_new_def FeatureNode_new_def ref_to_def dict_keys_def Let_def
      has_cycle.simps traces_to_solid.simps)

lemma ex_chain_tree_valid: "validate_tree (ex_chain_tree\<lparr>needs_full_regeneration := f\<rparr>) = []"
  by (simp add: ex_chain_tree_eq validate_tree_def dict_keys_def dict_values_def
      FeatureTree_new_def FeatureNode_new_def ref_to_def get_node_dependencies.simps)

lemma ex_add_box:
  "add_node_to_tree (ex_workplane_tree\<lparr>needs_full_regeneration := f\<rparr>)
       ((FeatureNode_new ''b'' ''Box 1'' BOX)\<lparr>parent_references := [ref_to ''w'']\<rparr>) (Some ''w'')
     = Inr (ex_chain_tree\<lparr>dirty := True, needs_full_regeneration := False\<rparr>)"
proof -
  let ?b = "(FeatureNode_new ''b'' ''Box 1'' BOX)\<lparr>parent_references := [ref_to ''w'']\<rparr>"
  have a: "add_node (ex_workplane_tree\<lparr>needs_full_regeneration := f\<rparr>) ?b (Some ''w'')
           = ex_chain_tree\<lparr>needs_full_regeneration := f\<rparr>"
    by (simp add: ex_chain_tree_def ex_workplane_tree_def add_node_def Let_def)
  have k: "''w'' \<in> set (dict_keys (nodes (ex_workplane_tree\<lparr>needs_full_regeneration := f\<rparr>)))"
    by (simp add: ex_workplane_tree_eq dict_keys_def)
  have n: "length (nodes ex_chain_tree) = 2" by (simp add: ex_chain_tree_eq)
  have t: "feature_type ?b = BOX" by (simp add: FeatureNode_new_def)
  have r: "list_ex (\<lambda>r. feature_id r = ''w'') (parent_references ?b)" by (simp add: ref_to_def)
  show ?thesis
    unfolding add_node_to_tree_def Let_def
    using k r by (simp add: ex_add_box_valid a ex_chain_tree_valid n t)
qed

text \<open>
  C9, as stated, fails on the validated path. The storage service's \<open>add_node_to_tree\<close>
  accepts a BOX on the workplane of a tree whose \<open>needs_full_regeneration\<close> is true, and
  the tree it returns has \<open>dirty\<close> true and \<open>needs_full_regeneration\<close> false.
\<close>

theorem C9_storage_add_box_clears_full_regeneration:
  "add_node_to_tree (ex_workplane_tree\<lparr>needs_full_regeneration := True\<rparr>)
       ((FeatureNode_new ''b'' ''Box 1'' BOX)\<lparr>parent_references := [ref_to ''w'']\<rparr>) (Some ''w'')
     = Inr (ex_chain_tree\<lparr>dirty := True, needs_full_regeneration := False\<rparr>) \<and>
   needs_full_regeneration (ex_workplane_tree\<lparr>needs_full_regeneration := True\<rparr>) \<and>
   \<not> needs_full_regeneration (ex_chain_tree\<lparr>dirty := True, needs_full_regeneration := False\<rparr>)"
  using ex_add_box[of True] by simp

text \<open>
  C9, amended. A successful \<open>add_node_to_tree\<close> of the storage service sets \<open>dirty\<close>, and
  sets \<open>needs_full_regeneration\<close> to true exactly when the node is a workplane, a sketch or
  an assembly root, or is the only node of the tree, and to false otherwise. A successful
  \<open>remove_node_from_tree\<close> sets both flags. The methods \<open>add_node\<close> and \<open>remove_node\<close> of
  the tree model leave both flags as they were.
\<close>

theorem C9_flags_set_by_storage_layer:
  "(add_node_to_tree T n p = Inr T1 \<longrightarrow>
      dirty T1 \<and>
      (needs_full_regeneration T1 \<longleftrightarrow>
         feature_type n \<in> {WORKPLANE, SKETCH, ASSEMBLY_ROOT} \<or> length (nodes T1) = 1)) \<and>
   (remove_node_from_tree d T nid = Inr T2 \<longrightarrow> dirty T2 \<and> needs_full_regeneration T2) \<and>
   dirty (add_node T n p) = dirty T \<and>
   needs_full_regeneration (add_node T n p) = needs_full_regeneration T \<and>
   (remove_node d T nid = Inr T3 \<longrightarrow>
      dirty T3 = dirty T \<and> needs_full_regeneration T3 = needs_full_regeneration T)"
  using add_node_to_tree_flags[of T n p T1] remove_node_from_tree_flags[of d T nid T2]
    add_node_flags[of T n p] remove_node_flags_aux(1)[of d T nid T3]
  by blast

lemma ex_workplane_tree_remove:
  "remove_node 2 ex_workplane_tree ''w'' = Inr ((FeatureTree_new ''p'' 1 ''u'')\<lparr>root_node_id := None\<rparr>)"
  by (simp add: ex_workplane_tree_eq numeral_2_eq_2 remove_finish_def dict_keys_def drop_child_def
      FeatureTree_new_def FeatureNode_new_def Let_def)

theorem C9_flags_witness:
  "add_node_to_tree ex_workplane_tree
       ((FeatureNode_new ''b'' ''Box 1'' BOX)\<lparr>parent_references := [ref_to ''w'']\<rparr>) (Some ''w'')
     = Inr (ex_chain_tree\<lparr>dirty := True, needs_full_regeneration := False\<rparr>) \<and>
   remove_node_from_tree 2 ex_workplane_tree ''w'' =
     Inr ((FeatureTree_new ''p'' 1 ''u'')\<lparr>root_node_id := None, dirty := True,
            needs_full_regeneration := True\<rparr>) \<and>
   remove_node 2 ex_workplane_tree ''w'' =
     Inr ((FeatureTree_new ''p'' 1 ''u'')\<lparr>root_node_id := None\<rparr>) \<and>
   dirty (ex_chain_tree\<lparr>dirty := True, needs_full_regeneration := False\<rparr>) \<and>
   length (nodes (ex_chain_tree\<lparr>dirty := True, needs_full_regeneration := False\<rparr>)) = 2 \<and>
   dirty ((FeatureTree_new ''p'' 1 ''u'')\<lparr>root_node_id := None\<rparr>) = dirty ex_workplane_tree"
proof -
  let ?b = "(FeatureNode_new ''b'' ''Box 1'' BOX)\<lparr>parent_references := [ref_to ''w'']\<rparr>"
  have w: "ex_workplane_tree\<lparr>needs_full_regeneration := False\<rparr> = ex_workplane_tree"
    by (simp add: ex_workplane_tree_eq FeatureTree_new_def)
  have a: "add_node_to_tree ex_workplane_tree ?b (Some ''w'')
     = Inr (ex_chain_tree\<lparr>dirty := True, needs_full_regeneration := False\<rparr>)"
    using ex_add_box[of False] unfolding w .
  have c: "remove_node 2 ex_workplane_tree ''w'' =
      Inr ((FeatureTree_new ''p'' 1 ''u'')\<lparr>root_node_id := None\<rparr>)"
    by (rule ex_workplane_tree_remove)
  have b: "remove_node_from_tree 2 ex_workplane_tree ''w'' =
     Inr ((FeatureTree_new ''p'' 1 ''u'')\<lparr>root_node_id := None, dirty := True,
            needs_full_regeneration := True\<rparr>)"
    by (simp add: remove_node_from_tree_def c) (simp add: ex_workplane_tree_eq dict_keys_def)
  have n: "length (nodes (ex_chain_tree\<lparr>dirty := True, needs_full_regeneration := False\<rparr>)) = 2"
    by (simp add: ex_chain_tree_eq)
  from C9_flags_set_by_storage_layer[of ex_workplane_tree ?b "Some ''w''"
      "ex_chain_tree\<lparr>dirty := True, needs_full_regeneration := False\<rparr>" 2 "''w''"
      "(FeatureTree_new ''p'' 1 ''u'')\<lparr>root_node_id := None, dirty := True,
          needs_full_regeneration := True\<rparr>"
      "(FeatureTree_new ''p'' 1 ''u'')\<lparr>root_node_id := None\<rparr>"] a b c n
  show ?thesis by simp
qed

subsection \<open>The dependency graph and the in-degrees\<close>

lemma update_fresh: "k \<notin> fst ` set al \<Longrightarrow> AList.update k v al = al @ [(k, v)]"
  by (induction al) auto

lemma fold_update_fresh:
  "distinct (map fst ns) \<Longrightarrow> fst ` set acc \<inter> fst ` set ns = {} \<Longrightarrow>
   fold (\<lambda>(nid, node) g. AList.update nid v g) ns acc = acc @ map (\<lambda>(nid, node). (nid, v)) ns"
proof (induction ns arbitrary: acc)
  case Nil
  then show ?case by simp
next
  case (Cons a ns)
  obtain k n where a: "a = (k, n)" by (cases a)
  from Cons.prems a have fresh: "k \<notin> fst ` set acc" by auto
  have "fst ` set (acc @ [(k, v)]) \<inter> fst ` set ns = {}"
    using Cons.prems a by (auto simp: image_iff)
  moreover have "distinct (map fst ns)" using Cons.prems by simp
  ultimately have "fold (\<lambda>(nid, node) g. AList.update nid v g) ns (acc @ [(k, v)])
      = (acc @ [(k, v)]) @ map (\<lambda>(nid, node). (nid, v)) ns"
    by (rule Cons.IH[rotated])
  then show ?case using a fresh by (simp add: update_fresh)
qed

lemma fold_update_init:
  "distinct (map fst ns) \<Longrightarrow>
   fold (\<lambda>(nid, node) g. AList.update nid v g) ns [] = map (\<lambda>(nid, node). (nid, v)) ns"
  using fold_update_fresh[of ns "[]" v] by simp

lemma map_of_graph_add_refs:
  "map_of (graph_add_refs nid rs g) p =
     (case map_of g p of None \<Rightarrow> None
      | Some ds \<Rightarrow> Some (ds @ map (\<lambda>r. nid) (filter (\<lambda>r. feature_id r = p) rs)))"
proof (induction rs arbitrary: g)
  case Nil
  then show ?case by (simp split: option.splits)
next
  case (Cons r rs)
  show ?case
    by (cases "map_of g (feature_id r)")
       (auto simp: Cons.IH AList.update_conv' split: option.splits)
qed

lemma map_of_fold_graph:
  "map_of (fold (\<lambda>(nid, node) g. graph_add_refs nid (parent_references node) g) ns g) p =
     (case map_of g p of None \<Rightarrow> None | Some ds \<Rightarrow> Some (ds @ dependents_of ns p))"
proof (induction ns arbitrary: g)
  case Nil
  then show ?case by (simp add: dependents_of_def split: option.splits)
next
  case (Cons a ns)
  obtain k n where a: "a = (k, n)" by (cases a)
  show ?case
    by (simp add: a Cons.IH map_of_graph_add_refs dependents_of_def split: option.splits)
qed

lemma map_of_const_map:
  "map_of (map (\<lambda>(nid, node). (nid, v)) ns) p = (if p \<in> fst ` set ns then Some v else None)"
  by (induction ns) auto

lemma build_dependency_graph_lookup:
  "distinct (map fst (nodes T)) \<Longrightarrow>
   map_of (build_dependency_graph T) p =
     (if p \<in> fst ` set (nodes T) then Some (dependents_of (nodes T) p) else None)"
  by (simp add: build_dependency_graph_def fold_update_init map_of_fold_graph map_of_const_map)

lemma count_refs_result:
  "map_of deg nid = Some v \<Longrightarrow>
   \<exists>deg'. count_refs nid rs deg = Inr deg' \<and> map fst deg' = map fst deg \<and>
      map_of deg' = (map_of deg)(nid \<mapsto> v + int (length (filter (\<lambda>r. feature_id r \<in> fst ` set deg) rs)))"
proof (induction rs arbitrary: deg v)
  case Nil
  then show ?case by (auto simp: fun_upd_idem)
next
  case (Cons r rs)
  show ?case
  proof (cases "feature_id r \<in> fst ` set deg")
    case True
    let ?d = "AList.update nid (v + 1) deg"
    have key: "nid \<in> fst ` set deg" using map_of_SomeD[OF Cons.prems] by (force simp: image_iff)
    have keys: "map fst ?d = map fst deg" using key by (simp add: AList.update_keys)
    then have img: "fst ` set ?d = fst ` set deg" by (metis list.set_map)
    have "map_of ?d nid = Some (v + 1)" by (simp add: AList.update_conv')
    from Cons.IH[OF this] obtain deg' where
      d: "count_refs nid rs ?d = Inr deg'" "map fst deg' = map fst ?d"
         "map_of deg' = (map_of ?d)(nid \<mapsto> v + 1 + int (length (filter (\<lambda>r. feature_id r \<in> fst ` set ?d) rs)))"
      by blast
    have A: "count_refs nid (r # rs) deg = Inr deg'"
      using True Cons.prems d(1) by (simp add: dict_keys_def)
    have C: "map_of deg' = (map_of deg)(nid \<mapsto> v + int (length (filter (\<lambda>r. feature_id r \<in> fst ` set deg) (r # rs))))"
      using d(3) True by (simp add: img AList.update_conv' add.assoc)
    have B: "map fst deg' = map fst deg" using d(2) keys by simp
    from A B C show ?thesis by blast
  next
    case False
    from Cons.IH[OF Cons.prems] obtain deg' where
      d: "count_refs nid rs deg = Inr deg'" "map fst deg' = map fst deg"
         "map_of deg' = (map_of deg)(nid \<mapsto> v + int (length (filter (\<lambda>r. feature_id r \<in> fst ` set deg) rs)))"
      by blast
    have A: "count_refs nid (r # rs) deg = Inr deg'"
      using False d(1) by (simp add: dict_keys_def)
    have C: "map_of deg' = (map_of deg)(nid \<mapsto> v + int (length (filter (\<lambda>r. feature_id r \<in> fst ` set deg) (r # rs))))"
      using d(3) False by simp
    from A d(2) C show ?thesis by blast
  qed
qed

lemma count_all_refs_result:
  "distinct (map fst ns) \<Longrightarrow> \<forall>k \<in> fst ` set ns. map_of deg k = Some 0 \<Longrightarrow>
   \<exists>deg'. count_all_refs ns deg = Inr deg' \<and> map fst deg' = map fst deg \<and>
      (\<forall>k. map_of deg' k = (case map_of ns k of None \<Rightarrow> map_of deg k
                             | Some n \<Rightarrow> Some (int (cnt (fst ` set deg) n))))"
proof (induction ns arbitrary: deg)
  case Nil
  then show ?case by simp
next
  case (Cons a ns)
  obtain k n where a: "a = (k, n)" by (cases a)
  from Cons.prems a have k0: "map_of deg k = Some 0" by simp
  from count_refs_result[OF k0, of "parent_references n"] obtain deg1 where
    d1: "count_refs k (parent_references n) deg = Inr deg1" "map fst deg1 = map fst deg"
        "map_of deg1 = (map_of deg)(k \<mapsto> int (cnt (fst ` set deg) n))"
    by (auto simp: cnt_def)
  have img: "fst ` set deg1 = fst ` set deg" using d1(2) by (metis list.set_map)
  have kn: "k \<notin> fst ` set ns" using Cons.prems a by auto
  have "\<forall>k' \<in> fst ` set ns. map_of deg1 k' = Some 0"
    using Cons.prems kn a by (auto simp: d1(3))
  moreover have "distinct (map fst ns)" using Cons.prems by simp
  ultimately obtain deg' where
    d: "count_all_refs ns deg1 = Inr deg'" "map fst deg' = map fst deg1"
       "\<forall>k'. map_of deg' k' = (case map_of ns k' of None \<Rightarrow> map_of deg1 k'
                             | Some n \<Rightarrow> Some (int (cnt (fst ` set deg1) n)))"
    using Cons.IH[of deg1] by blast
  have "count_all_refs (a # ns) deg = Inr deg'" using a d1(1) d(1) by simp
  moreover have "\<forall>k'. map_of deg' k' = (case map_of (a # ns) k' of None \<Rightarrow> map_of deg k'
                             | Some n \<Rightarrow> Some (int (cnt (fst ` set deg) n)))"
  proof
    fix k'
    show "map_of deg' k' = (case map_of (a # ns) k' of None \<Rightarrow> map_of deg k'
                             | Some n \<Rightarrow> Some (int (cnt (fst ` set deg) n)))"
    proof (cases "k' = k")
      case True
      then have "map_of ns k' = None" using kn by (simp add: map_of_eq_None_iff)
      then show ?thesis using d(3) True a by (simp add: d1(3))
    next
      case False
      then show ?thesis using d(3) a by (simp add: d1(3) img split: option.splits)
    qed
  qed
  ultimately show ?case using d(2) d1(2) by simp
qed

lemma initial_in_degree_result:
  assumes "distinct (map fst (nodes T))"
  shows "\<exists>deg. initial_in_degree T = Inr deg \<and> map fst deg = map fst (nodes T) \<and>
      (\<forall>k n. map_of (nodes T) k = Some n \<longrightarrow>
          map_of deg k = Some (int (cnt (fst ` set (nodes T)) n)))"
proof -
  let ?d0 = "map (\<lambda>(nid, node). (nid, 0::int)) (nodes T)"
  have keys0: "map fst ?d0 = map fst (nodes T)" by (induction "nodes T") auto
  then have img0: "fst ` set ?d0 = fst ` set (nodes T)" by (metis list.set_map)
  have "\<forall>k \<in> fst ` set (nodes T). map_of ?d0 k = Some 0"
    by (simp add: map_of_const_map)
  from count_all_refs_result[OF assms this] obtain deg where
    d: "count_all_refs (nodes T) ?d0 = Inr deg" "map fst deg = map fst ?d0"
       "\<forall>k. map_of deg k = (case map_of (nodes T) k of None \<Rightarrow> map_of ?d0 k
                             | Some n \<Rightarrow> Some (int (cnt (fst ` set ?d0) n)))"
    by blast
  have "initial_in_degree T = Inr deg"
    using d(1) assms by (simp add: initial_in_degree_def fold_update_init)
  then show ?thesis using d(2,3) keys0 img0 by auto
qed

lemma dec_dependents_result:
  "set ds \<subseteq> fst ` set deg \<Longrightarrow>
   \<exists>deg' zs. dec_dependents ds deg q = Inr (deg', q @ zs) \<and> map fst deg' = map fst deg \<and>
     (\<forall>k. map_of deg' k = map_option (\<lambda>v. v - int (count_list ds k)) (map_of deg k)) \<and>
     distinct zs \<and>
     set zs = {d \<in> set ds. \<exists>v. map_of deg d = Some v \<and> 1 \<le> v \<and> v \<le> int (count_list ds d)}"
proof (induction ds arbitrary: deg q)
  case Nil
  show ?case by (simp add: option.map_ident)
next
  case (Cons d ds)
  from Cons.prems have dk: "d \<in> fst ` set deg" by simp
  then obtain v where v: "map_of deg d = Some v"
    by (metis map_of_eq_None_iff not_Some_eq)
  let ?deg1 = "AList.update d (v - 1) deg"
  let ?q1 = "if v - 1 = 0 then q @ [d] else q"
  have keys1: "map fst ?deg1 = map fst deg" using dk by (simp add: AList.update_keys)
  then have img1: "fst ` set ?deg1 = fst ` set deg" by (metis list.set_map)
  have m1: "map_of ?deg1 = (map_of deg)(d \<mapsto> v - 1)" by (simp add: AList.update_conv')
  have "set ds \<subseteq> fst ` set ?deg1" using Cons.prems img1 by simp
  from Cons.IH[OF this, of ?q1] obtain deg' zs' where
    r: "dec_dependents ds ?deg1 ?q1 = Inr (deg', ?q1 @ zs')"
       "map fst deg' = map fst ?deg1"
       "\<forall>k. map_of deg' k = map_option (\<lambda>v. v - int (count_list ds k)) (map_of ?deg1 k)"
       "distinct zs'"
       "set zs' = {d' \<in> set ds. \<exists>w. map_of ?deg1 d' = Some w \<and> 1 \<le> w \<and> w \<le> int (count_list ds d')}"
    by blast
  let ?zs = "if v - 1 = 0 then d # zs' else zs'"
  have A: "dec_dependents (d # ds) deg q = Inr (deg', q @ ?zs)"
    using v r(1) by simp
  have B: "map fst deg' = map fst deg" using r(2) keys1 by simp
  have C: "\<forall>k. map_of deg' k = map_option (\<lambda>v. v - int (count_list (d # ds) k)) (map_of deg k)"
  proof
    fix k
    show "map_of deg' k = map_option (\<lambda>v. v - int (count_list (d # ds) k)) (map_of deg k)"
      using r(3)[rule_format, of k] v by (cases "k = d") (simp_all add: AList.update_conv')
  qed
  have dz: "v - 1 = 0 \<Longrightarrow> d \<notin> set zs'"
    by (simp add: r(5) AList.update_conv')
  have D: "distinct ?zs" using r(4) dz by simp
  have E: "set ?zs = {d' \<in> set (d # ds). \<exists>w. map_of deg d' = Some w \<and> 1 \<le> w \<and> w \<le> int (count_list (d # ds) d')}"
    (is "_ = ?R")
  proof (intro set_eqI iffI)
    fix x assume x: "x \<in> set ?zs"
    show "x \<in> ?R"
    proof (cases "x = d")
      case True
      have "1 \<le> v \<and> v \<le> int (count_list (d # ds) d)"
      proof (cases "v - 1 = 0")
        case True
        then show ?thesis by simp
      next
        case False
        with x \<open>x = d\<close> have "d \<in> set zs'" by simp
        then show ?thesis by (auto simp: r(5) AList.update_conv')
      qed
      with True v show ?thesis by simp
    next
      case False
      with x have "x \<in> set zs'" by (auto split: if_splits)
      with False show ?thesis by (auto simp: r(5) AList.update_conv')
    qed
  next
    fix x assume x: "x \<in> ?R"
    show "x \<in> set ?zs"
    proof (cases "x = d")
      case True
      with x v have b: "1 \<le> v" "v \<le> int (count_list ds d) + 1" by auto
      show ?thesis
      proof (cases "v - 1 = 0")
        case True
        then show ?thesis using \<open>x = d\<close> by simp
      next
        case False
        with b have "1 \<le> v - 1" "v - 1 \<le> int (count_list ds d)" by auto
        moreover from this have "d \<in> set ds"
          by (metis count_list_0_iff int_ops(1) not_one_le_zero order_trans)
        ultimately have "d \<in> set zs'" by (simp add: r(5) AList.update_conv')
        with False True show ?thesis by simp
      qed
    next
      case False
      with x have "x \<in> set zs'" by (auto simp: r(5) AList.update_conv')
      then show ?thesis by simp
    qed
  qed
  from A B C D E show ?case by blast
qed

lemma count_list_const_map: "count_list (map (\<lambda>r. k0) rs) k = (if k = k0 then length rs else 0)"
  by (induction rs) auto

lemma count_list_dependents:
  "distinct (map fst ns) \<Longrightarrow>
   count_list (dependents_of ns c) k =
     (case map_of ns k of None \<Rightarrow> 0 | Some n \<Rightarrow> cnt {c} n)"
proof (induction ns)
  case Nil
  then show ?case by (simp add: dependents_of_def)
next
  case (Cons a ns)
  obtain k0 n0 where a: "a = (k0, n0)" by (cases a)
  have d: "dependents_of ((k0, n0) # ns) c =
      map (\<lambda>r. k0) (filter (\<lambda>r. feature_id r = c) (parent_references n0)) @ dependents_of ns c"
    by (simp add: dependents_of_def)
  have ih: "count_list (dependents_of ns c) k =
     (case map_of ns k of None \<Rightarrow> 0 | Some n \<Rightarrow> cnt {c} n)"
    using Cons by simp
  show ?case
  proof (cases "k = k0")
    case True
    then have "map_of ns k = None" using Cons.prems a by (simp add: map_of_eq_None_iff)
    then show ?thesis using True a ih by (simp add: d count_list_const_map cnt_def)
  next
    case False
    then show ?thesis using a ih by (simp add: d count_list_const_map)
  qed
qed

lemma set_dependents_subset: "set (dependents_of ns c) \<subseteq> fst ` set ns"
  by (auto simp: dependents_of_def image_iff) force

lemma cnt_split: "c \<in> A \<Longrightarrow> cnt A n = cnt (A - {c}) n + cnt {c} n"
proof -
  assume c: "c \<in> A"
  have "length (filter (\<lambda>r. feature_id r \<in> A) rs) =
        length (filter (\<lambda>r. feature_id r \<in> A - {c}) rs) + length (filter (\<lambda>r. feature_id r \<in> {c}) rs)"
    for rs :: "FeatureReference list"
    using c by (induction rs) auto
  then show ?thesis by (simp add: cnt_def)
qed

lemma cnt_zero_iff: "cnt A n = 0 \<longleftrightarrow> (\<forall>r \<in> set (parent_references n). feature_id r \<notin> A)"
  by (auto simp: cnt_def filter_empty_conv)

subsection \<open>Kahn's loop keeps its invariant\<close>

lemma kahn_step:
  assumes dist: "distinct (map fst ns)"
      and inv: "kahn_inv ns deg (current # queue) order"
  shows "\<exists>deg' zs. dec_dependents (dependents_of ns current) deg queue = Inr (deg', queue @ zs) \<and>
            kahn_inv ns deg' (queue @ zs) (order @ [current])"
proof -
  let ?K = "fst ` set ns"
  let ?ds = "dependents_of ns current"
  from inv have keys: "map fst deg = map fst ns"
    unfolding kahn_inv_def by blast
  from inv have d0: "distinct (order @ current # queue)"
    unfolding kahn_inv_def by blast
  from inv have vals: "\<And>k n. map_of ns k = Some n \<Longrightarrow>
      map_of deg k = Some (int (cnt (?K - set order) n))"
    unfolding kahn_inv_def by blast
  from inv have zs0: "set (order @ current # queue) =
      {k. \<exists>n. map_of ns k = Some n \<and> cnt (?K - set order) n = 0}"
    unfolding kahn_inv_def by blast
  from inv have topo: "topo_order ns order"
    unfolding kahn_inv_def by blast
  have "current \<in> set (order @ current # queue)" by simp
  with zs0 obtain nc where nc: "map_of ns current = Some nc" "cnt (?K - set order) nc = 0"
    by blast
  have cK: "current \<in> ?K" using map_of_SomeD[OF nc(1)] by (force simp: image_iff)
  have cno: "current \<notin> set order" using d0 by simp
  have imgdeg: "fst ` set deg = ?K" using keys by (metis list.set_map)
  have sub: "set ?ds \<subseteq> fst ` set deg" using set_dependents_subset[of ns current] imgdeg by simp
  from dec_dependents_result[OF sub, of queue] obtain deg' zs where
    r: "dec_dependents ?ds deg queue = Inr (deg', queue @ zs)"
       "map fst deg' = map fst deg"
       "\<forall>k. map_of deg' k = map_option (\<lambda>v. v - int (count_list ?ds k)) (map_of deg k)"
       "distinct zs"
       "set zs = {d \<in> set ?ds. \<exists>v. map_of deg d = Some v \<and> 1 \<le> v \<and> v \<le> int (count_list ?ds d)}"
    by blast
  have cl: "\<And>k n. map_of ns k = Some n \<Longrightarrow> count_list ?ds k = cnt {current} n"
    by (simp add: count_list_dependents[OF dist])
  have seteq: "?K - set order - {current} = ?K - set (order @ [current])" by auto
  have split: "\<And>n. cnt (?K - set order) n = cnt (?K - set (order @ [current])) n + cnt {current} n"
    using cnt_split[of current "?K - set order"] cK cno seteq by simp
  have vals': "\<And>k n. map_of ns k = Some n \<Longrightarrow>
      map_of deg' k = Some (int (cnt (?K - set (order @ [current])) n))"
  proof -
    fix k n assume kn: "map_of ns k = Some n"
    have "map_of deg' k = Some (int (cnt (?K - set order) n) - int (cnt {current} n))"
      using r(3)[rule_format, of k] vals[OF kn] cl[OF kn] by simp
    also have "int (cnt (?K - set order) n) - int (cnt {current} n)
        = int (cnt (?K - set (order @ [current])) n)"
      using split[of n] by simp
    finally show "map_of deg' k = Some (int (cnt (?K - set (order @ [current])) n))" .
  qed
  have Z: "set zs = {k. \<exists>n. map_of ns k = Some n \<and> cnt (?K - set order) n \<noteq> 0 \<and>
                       cnt (?K - set (order @ [current])) n = 0}" (is "_ = ?Z")
  proof (intro set_eqI iffI)
    fix x assume "x \<in> set zs"
    with r(5) obtain v where x: "x \<in> set ?ds" "map_of deg x = Some v" "1 \<le> v"
        "v \<le> int (count_list ?ds x)" by blast
    from x(1) sub imgdeg have "x \<in> ?K" by blast
    then obtain n where n: "map_of ns x = Some n"
      by (metis map_of_eq_None_iff not_Some_eq)
    from vals[OF n] x(2) have v: "v = int (cnt (?K - set order) n)" by simp
    from x(4) cl[OF n] v split[of n] have "cnt (?K - set (order @ [current])) n = 0" by simp
    moreover from x(3) v have "cnt (?K - set order) n \<noteq> 0" by simp
    ultimately show "x \<in> ?Z" using n by blast
  next
    fix x assume "x \<in> ?Z"
    then obtain n where n: "map_of ns x = Some n" "cnt (?K - set order) n \<noteq> 0"
        "cnt (?K - set (order @ [current])) n = 0" by blast
    from split[of n] n(3) have e: "cnt {current} n = cnt (?K - set order) n" by simp
    with n(2) cl[OF n(1)] have "count_list ?ds x \<noteq> 0" by simp
    then have xin: "x \<in> set ?ds" by (simp add: count_list_0_iff)
    have "map_of deg x = Some (int (cnt (?K - set order) n))" by (rule vals[OF n(1)])
    moreover have "1 \<le> int (cnt (?K - set order) n)" using n(2) by simp
    moreover have "int (cnt (?K - set order) n) \<le> int (count_list ?ds x)"
      using cl[OF n(1)] e by simp
    ultimately show "x \<in> set zs" using xin r(5) by blast
  qed
  have disj: "set zs \<inter> set (order @ current # queue) = {}"
  proof (rule ccontr)
    assume "set zs \<inter> set (order @ current # queue) \<noteq> {}"
    then obtain x where x1: "x \<in> set zs" and x2: "x \<in> set (order @ current # queue)" by blast
    from x1 Z obtain n where n: "map_of ns x = Some n" "cnt (?K - set order) n \<noteq> 0" by blast
    from x2 zs0 obtain n' where n': "map_of ns x = Some n'" "cnt (?K - set order) n' = 0" by blast
    from n n' show False by simp
  qed
  have D: "distinct ((order @ [current]) @ queue @ zs)"
    using d0 r(4) disj by auto
  have S: "set ((order @ [current]) @ queue @ zs) =
      {k. \<exists>n. map_of ns k = Some n \<and> cnt (?K - set (order @ [current])) n = 0}" (is "?L = ?R")
  proof (intro set_eqI iffI)
    fix x assume "x \<in> ?L"
    then have "x \<in> set (order @ current # queue) \<or> x \<in> set zs" by auto
    then show "x \<in> ?R"
    proof
      assume "x \<in> set (order @ current # queue)"
      with zs0 obtain n where n: "map_of ns x = Some n" "cnt (?K - set order) n = 0" by blast
      with split[of n] have "cnt (?K - set (order @ [current])) n = 0" by simp
      with n show ?thesis by blast
    next
      assume "x \<in> set zs"
      with Z show ?thesis by blast
    qed
  next
    fix x assume "x \<in> ?R"
    then obtain n where n: "map_of ns x = Some n" "cnt (?K - set (order @ [current])) n = 0"
      by blast
    show "x \<in> ?L"
    proof (cases "cnt (?K - set order) n = 0")
      case True
      with n(1) zs0 have "x \<in> set (order @ current # queue)" by blast
      then show ?thesis by auto
    next
      case False
      with n Z have "x \<in> set zs" by blast
      then show ?thesis by simp
    qed
  qed
  have T: "topo_order ns (order @ [current])"
    unfolding topo_order_def
  proof (intro allI impI ballI)
    fix i n r
    assume i: "i < length (order @ [current])"
      and n: "map_of ns ((order @ [current]) ! i) = Some n"
      and rr: "r \<in> set (parent_references n)" and rk: "feature_id r \<in> ?K"
    show "feature_id r \<in> set (take i (order @ [current]))"
    proof (cases "i < length order")
      case True
      with n have "map_of ns (order ! i) = Some n" by (simp add: nth_append)
      with topo True rr rk have "feature_id r \<in> set (take i order)"
        unfolding topo_order_def by blast
      with True show ?thesis by simp
    next
      case False
      with i have ie: "i = length order" by simp
      with n nc(1) have "n = nc" by simp
      with nc(2) rr have "feature_id r \<notin> ?K - set order" by (simp add: cnt_zero_iff)
      with rk have "feature_id r \<in> set order" by simp
      with ie show ?thesis by simp
    qed
  qed
  have "kahn_inv ns deg' (queue @ zs) (order @ [current])"
    unfolding kahn_inv_def using r(2) keys D vals' S T by (intro conjI allI impI) auto
  with r(1) show ?thesis by blast
qed

lemma kahn_loop_correct:
  "distinct (map fst ns) \<Longrightarrow>
   (\<forall>p. map_of g p = (if p \<in> fst ` set ns then Some (dependents_of ns p) else None)) \<Longrightarrow>
   kahn_inv ns deg queue order \<Longrightarrow>
   \<exists>res deg'. kahn_loop g deg queue order = Inr res \<and> kahn_inv ns deg' [] res"
proof (induction g deg queue order rule: kahn_loop.induct)
  case (1 g deg order)
  then show ?case by auto
next
  case (2 g deg current queue order)
  from kahn_step[OF "2.prems"(1) "2.prems"(3)] obtain deg1 zs where
    st: "dec_dependents (dependents_of ns current) deg queue = Inr (deg1, queue @ zs)"
        "kahn_inv ns deg1 (queue @ zs) (order @ [current])"
    by blast
  from "2.prems"(3) have "set (order @ current # queue) =
      {k. \<exists>n. map_of ns k = Some n \<and> cnt (fst ` set ns - set order) n = 0}"
    unfolding kahn_inv_def by blast
  then obtain nc where "map_of ns current = Some nc" by auto
  then have "current \<in> fst ` set ns" using map_of_SomeD by (force simp: image_iff)
  with "2.prems"(2) have g: "map_of g current = Some (dependents_of ns current)" by simp
  from "2.IH"(2)[OF g st(1) refl "2.prems"(1) "2.prems"(2) st(2)] obtain res deg' where
    "kahn_loop g deg1 (queue @ zs) (order @ [current]) = Inr res" "kahn_inv ns deg' [] res"
    by blast
  moreover have "kahn_loop g deg (current # queue) order =
      kahn_loop g deg1 (queue @ zs) (order @ [current])"
    using g st(1) by simp
  ultimately show ?case by auto
qed

lemma kahn_initial_inv:
  assumes dist: "distinct (map fst ns)"
      and keys: "map fst deg = map fst ns"
      and vals: "\<And>k n. map_of ns k = Some n \<Longrightarrow> map_of deg k = Some (int (cnt (fst ` set ns) n))"
  shows "kahn_inv ns deg (map fst (filter (\<lambda>(nid, degree). degree = 0) deg)) []"
proof -
  have dd: "distinct (map fst deg)" using dist keys by simp
  have D: "distinct (map fst (filter (\<lambda>(nid, degree). degree = 0) deg))"
    using dd by (rule distinct_map_filter)
  have S: "set (map fst (filter (\<lambda>(nid, degree). degree = 0) deg)) =
      {k. \<exists>n. map_of ns k = Some n \<and> cnt (fst ` set ns) n = 0}" (is "?L = ?R")
  proof (intro set_eqI iffI)
    fix x assume "x \<in> ?L"
    then have x0: "(x, 0) \<in> set deg" by auto
    then have m: "map_of deg x = Some 0" using dd by simp
    from x0 have "x \<in> fst ` set deg" by (force simp: image_iff)
    then have "x \<in> fst ` set ns" using keys by (metis list.set_map)
    then obtain n where n: "map_of ns x = Some n" by (metis map_of_eq_None_iff not_Some_eq)
    from vals[OF n] m have "cnt (fst ` set ns) n = 0" by simp
    with n show "x \<in> ?R" by blast
  next
    fix x assume "x \<in> ?R"
    then obtain n where n: "map_of ns x = Some n" "cnt (fst ` set ns) n = 0" by blast
    from vals[OF n(1)] n(2) have "map_of deg x = Some 0" by simp
    then have "(x, 0) \<in> set deg" by (rule map_of_SomeD)
    then show "x \<in> ?L" by (force simp: image_iff)
  qed
  show ?thesis
    unfolding kahn_inv_def topo_order_def using keys D S vals by simp
qed

subsection \<open>What the loop leaves, with and without a cycle\<close>

lemma resolve_kahn:
  assumes "unique_keys T"
  shows "\<exists>res deg deg'. initial_in_degree T = Inr deg \<and>
      kahn_loop (build_dependency_graph T) deg
         (map fst (filter (\<lambda>(nid, degree). degree = 0) deg)) [] = Inr res \<and>
      kahn_inv (nodes T) deg' [] res"
proof -
  from assms have dist: "distinct (map fst (nodes T))" by (simp add: unique_keys_def dict_keys_def)
  from initial_in_degree_result[OF dist] obtain deg where
    d: "initial_in_degree T = Inr deg" "map fst deg = map fst (nodes T)"
       "\<And>k n. map_of (nodes T) k = Some n \<Longrightarrow>
          map_of deg k = Some (int (cnt (fst ` set (nodes T)) n))"
    by blast
  have inv0: "kahn_inv (nodes T) deg (map fst (filter (\<lambda>(nid, degree). degree = 0) deg)) []"
    by (rule kahn_initial_inv[OF dist d(2) d(3)])
  have g: "\<forall>p. map_of (build_dependency_graph T) p =
      (if p \<in> fst ` set (nodes T) then Some (dependents_of (nodes T) p) else None)"
    using build_dependency_graph_lookup[OF dist] by simp
  from kahn_loop_correct[OF dist g inv0] d(1) show ?thesis by blast
qed

lemma dep_edges_iff:
  "(p, c) \<in> set (dep_edges T) \<longleftrightarrow>
     (\<exists>n. (c, n) \<in> set (nodes T) \<and> (\<exists>r \<in> set (parent_references n). feature_id r = p) \<and>
          p \<in> fst ` set (nodes T))"
proof
  assume "(p, c) \<in> set (dep_edges T)"
  then obtain kn where kn: "kn \<in> set (nodes T)"
      "(p, c) \<in> set (case kn of (k, n) \<Rightarrow> map (\<lambda>r. (feature_id r, k))
           (filter (\<lambda>r. feature_id r \<in> set (dict_keys (nodes T))) (parent_references n)))"
    unfolding dep_edges_def by auto
  obtain k n where e: "kn = (k, n)" by (cases kn)
  from kn(2) e obtain r where r: "r \<in> set (parent_references n)"
      "feature_id r \<in> set (dict_keys (nodes T))" "p = feature_id r" "c = k"
    by auto
  from r(2) have "feature_id r \<in> fst ` set (nodes T)" by (simp add: dict_keys_def)
  with kn(1) e r show "\<exists>n. (c, n) \<in> set (nodes T) \<and>
      (\<exists>r \<in> set (parent_references n). feature_id r = p) \<and> p \<in> fst ` set (nodes T)"
    by blast
next
  assume "\<exists>n. (c, n) \<in> set (nodes T) \<and>
      (\<exists>r \<in> set (parent_references n). feature_id r = p) \<and> p \<in> fst ` set (nodes T)"
  then obtain n r where n: "(c, n) \<in> set (nodes T)" "r \<in> set (parent_references n)"
      "feature_id r = p" "p \<in> fst ` set (nodes T)" by blast
  from n(3,4) have "feature_id r \<in> set (dict_keys (nodes T))" by (simp add: dict_keys_def)
  with n(2,3) have "(p, c) \<in> set (map (\<lambda>r. (feature_id r, c))
           (filter (\<lambda>r. feature_id r \<in> set (dict_keys (nodes T))) (parent_references n)))"
    by force
  with n(1) show "(p, c) \<in> set (dep_edges T)"
    unfolding dep_edges_def set_concat set_map
    by (intro UN_I[of "(\<lambda>(k, n). map (\<lambda>r. (feature_id r, k))
           (filter (\<lambda>r. feature_id r \<in> set (dict_keys (nodes T))) (parent_references n))) (c, n)"])
       (simp_all add: image_iff, force)
qed

lemma kahn_final_complete:
  assumes dist: "distinct (map fst (nodes T))"
      and inv: "kahn_inv (nodes T) deg' [] res"
      and acyc: "acyclic (set (dep_edges T))"
  shows "set res = fst ` set (nodes T)"
proof -
  let ?K = "fst ` set (nodes T)"
  from inv have S: "set res = {k. \<exists>n. map_of (nodes T) k = Some n \<and> cnt (?K - set res) n = 0}"
    unfolding kahn_inv_def by simp
  have sub: "set res \<subseteq> ?K"
  proof
    fix x assume "x \<in> set res"
    with S obtain n where "map_of (nodes T) x = Some n" by blast
    then show "x \<in> ?K" using map_of_SomeD by (force simp: image_iff)
  qed
  have "wf (set (dep_edges T))" using acyc by (simp add: finite_acyclic_wf)
  have "?K - set res = {}"
  proof (rule ccontr)
    assume "?K - set res \<noteq> {}"
    then obtain x where "x \<in> ?K - set res" by blast
    with \<open>wf (set (dep_edges T))\<close> obtain z where
      z: "z \<in> ?K - set res" "\<And>y. (y, z) \<in> set (dep_edges T) \<Longrightarrow> y \<notin> ?K - set res"
      by (rule wfE_min) blast
    from z(1) obtain n where n: "map_of (nodes T) z = Some n"
      by (metis DiffD1 map_of_eq_None_iff not_Some_eq)
    from z(1) S n have "cnt (?K - set res) n \<noteq> 0" by auto
    then obtain r where r: "r \<in> set (parent_references n)" "feature_id r \<in> ?K - set res"
      by (auto simp: cnt_zero_iff)
    have "(feature_id r, z) \<in> set (dep_edges T)"
      using map_of_SomeD[OF n] r by (auto simp: dep_edges_iff)
    from z(2)[OF this] r(2) show False by simp
  qed
  with sub show ?thesis by blast
qed

lemma kahn_final_acyclic:
  assumes dist: "distinct (map fst (nodes T))"
      and inv: "kahn_inv (nodes T) deg' [] res"
      and all: "set res = fst ` set (nodes T)"
  shows "acyclic (set (dep_edges T))"
proof -
  let ?f = "\<lambda>x. length (takeWhile (\<lambda>y. y \<noteq> x) res)"
  from inv have dres: "distinct res" and topo: "topo_order (nodes T) res"
    unfolding kahn_inv_def by simp_all
  have idx: "\<And>i. i < length res \<Longrightarrow> ?f (res ! i) = i"
  proof -
    fix i assume i: "i < length res"
    have "takeWhile (\<lambda>y. y \<noteq> res ! i) res = take i res"
    proof (rule takeWhile_eq_take_P_nth)
      fix j assume "j < i" "j < length res"
      with i dres show "res ! j \<noteq> res ! i" by (simp add: nth_eq_iff_index_eq)
    next
      show "i < length res \<Longrightarrow> \<not> res ! i \<noteq> res ! i" by simp
    qed
    with i show "?f (res ! i) = i" by simp
  qed
  have "set (dep_edges T) \<subseteq> inv_image less_than ?f"
  proof
    fix e assume e: "e \<in> set (dep_edges T)"
    obtain p c where pc: "e = (p, c)" by (cases e)
    with e obtain n r where n: "(c, n) \<in> set (nodes T)" "r \<in> set (parent_references n)"
        "feature_id r = p" "p \<in> fst ` set (nodes T)"
      by (auto simp: dep_edges_iff)
    from n(1) have "c \<in> set res" using all by (force simp: image_iff)
    then obtain i where i: "i < length res" "res ! i = c" by (auto simp: in_set_conv_nth)
    from n(1) dist have "map_of (nodes T) (res ! i) = Some n" using i(2) by simp
    with topo i(1) n(2,3,4) have "p \<in> set (take i res)"
      unfolding topo_order_def by blast
    then obtain j where j: "j < i" "res ! j = p" using i(1)
      by (auto simp: in_set_conv_nth)
    from j i(1) have "?f p = j" using idx[of j] by simp
    moreover have "?f c = i" using idx[OF i(1)] i(2) by simp
    ultimately show "e \<in> inv_image less_than ?f" using j(1) pc by simp
  qed
  moreover have "wf (inv_image less_than ?f)" by simp
  ultimately have "wf (set (dep_edges T))" by (rule wf_subset[rotated])
  then show ?thesis by (rule wf_acyclic)
qed

subsection \<open>The resolver's order (C2, C3)\<close>

lemma ex_chain_tree_nodes:
  "nodes ex_chain_tree =
     [(''w'', (FeatureNode_new ''w'' ''XY'' WORKPLANE)\<lparr>child_ids := [''b'']\<rparr>),
      (''b'', (FeatureNode_new ''b'' ''Box 1'' BOX)\<lparr>parent_references := [ref_to ''w'']\<rparr>)]"
  "regeneration_order ex_chain_tree = [''w'', ''b'']"
  by (simp_all add: ex_chain_tree_def add_node_def FeatureTree_new_def FeatureNode_new_def Let_def
      add_child_def)

lemma ex_chain_tree_ok:
  "unique_keys ex_chain_tree" "refs_present ex_chain_tree" "acyclic (set (dep_edges ex_chain_tree))"
proof -
  show "unique_keys ex_chain_tree"
    by (simp add: unique_keys_def dict_keys_def ex_chain_tree_nodes)
  show "refs_present ex_chain_tree"
    by (simp add: refs_present_def dict_keys_def ex_chain_tree_nodes FeatureNode_new_def ref_to_def)
  have "set (dep_edges ex_chain_tree) = {(''w'', ''b'')}"
    by (simp add: dep_edges_def dict_keys_def ex_chain_tree_nodes FeatureNode_new_def ref_to_def)
  moreover have "acyclic {(''w'', ''b'')}"
    by (simp add: acyclic_insert wf_acyclic)
  ultimately show "acyclic (set (dep_edges ex_chain_tree))" by simp
qed

lemma ex_cyclic_tree_ok:
  "unique_keys ex_cyclic_tree" "\<not> acyclic (set (dep_edges ex_cyclic_tree))"
  by (simp_all add: unique_keys_def dep_edges_def dict_keys_def ex_cyclic_tree_def
      FeatureTree_new_def FeatureNode_new_def ref_to_def acyclic_def)

lemma ex_cyclic_resolve:
  "resolve ex_cyclic_tree = Inr ([''a''], [''Cyclic dependency detected in feature tree!''])"
  by (simp add: resolve_def resolve_dependencies_def initial_in_degree_def
      build_dependency_graph_def ex_cyclic_tree_def dict_keys_def
      FeatureTree_new_def FeatureNode_new_def ref_to_def)

text \<open>
  C2: for a tree with unique keys whose parent references all target nodes of the tree and
  form no cycle, the resolver returns an order (and logs nothing) that is a permutation of
  the node keys and in which every node comes strictly after the target of each of its
  parent references.
\<close>

theorem C2_resolve_topological:
  assumes "unique_keys T" "refs_present T" "acyclic (set (dep_edges T))"
  shows "\<exists>order. resolve T = Inr (order, []) \<and> mset order = mset (dict_keys (nodes T)) \<and>
     (\<forall>i < length order. \<forall>n. map_of (nodes T) (order ! i) = Some n \<longrightarrow>
        (\<forall>r \<in> set (parent_references n). \<exists>j < i. order ! j = feature_id r))"
proof -
  from assms(1) have dist: "distinct (map fst (nodes T))"
    by (simp add: unique_keys_def dict_keys_def)
  from resolve_kahn[OF assms(1)] obtain res deg deg' where
    r: "initial_in_degree T = Inr deg"
       "kahn_loop (build_dependency_graph T) deg
          (map fst (filter (\<lambda>(nid, degree). degree = 0) deg)) [] = Inr res"
       "kahn_inv (nodes T) deg' [] res"
    by blast
  have all: "set res = fst ` set (nodes T)"
    by (rule kahn_final_complete[OF dist r(3) assms(3)])
  from r(3) have dres: "distinct res" and topo: "topo_order (nodes T) res"
    unfolding kahn_inv_def by simp_all
  have "set res = set (map fst (nodes T))" using all by simp
  then have "mset res = mset (map fst (nodes T))"
    using set_eq_iff_mset_eq_distinct[OF dres dist] by blast
  then have ms: "mset res = mset (dict_keys (nodes T))"
    unfolding dict_keys_def .
  then have len: "length res = length (nodes T)"
    by (metis dict_keys_def length_map size_mset)
  have res: "resolve T = Inr (res, [])"
    using r(1,2) len by (simp add: resolve_def resolve_dependencies_def)
  have tp: "\<forall>i < length res. \<forall>n. map_of (nodes T) (res ! i) = Some n \<longrightarrow>
        (\<forall>r \<in> set (parent_references n). \<exists>j < i. res ! j = feature_id r)"
  proof (intro allI impI ballI)
    fix i n r
    assume i: "i < length res" and n: "map_of (nodes T) (res ! i) = Some n"
      and rr: "r \<in> set (parent_references n)"
    from map_of_SomeD[OF n] have "(res ! i, n) \<in> set (nodes T)" .
    with assms(2) rr have "feature_id r \<in> fst ` set (nodes T)"
      by (auto simp: refs_present_def list_all_iff dict_keys_def)
    with topo i n rr have "feature_id r \<in> set (take i res)"
      unfolding topo_order_def by blast
    then show "\<exists>j < i. res ! j = feature_id r"
      using i by (auto simp: in_set_conv_nth)
  qed
  from res ms tp show ?thesis by blast
qed

theorem C2_resolve_witness:
  "unique_keys ex_chain_tree \<and> refs_present ex_chain_tree \<and>
   acyclic (set (dep_edges ex_chain_tree)) \<and>
   (\<exists>order. resolve ex_chain_tree = Inr (order, []) \<and>
        mset order = mset (dict_keys (nodes ex_chain_tree)))"
  using C2_resolve_topological[OF ex_chain_tree_ok] ex_chain_tree_ok by blast

text \<open>
  C3, as stated, fails: on a tree whose only node refers to itself the resolver raises
  nothing; it returns an order, the stored regeneration order.
\<close>

theorem C3_cycle_not_raised:
  "\<not> acyclic (set (dep_edges ex_cyclic_tree)) \<and>
   resolve ex_cyclic_tree = Inr ([''a''], [''Cyclic dependency detected in feature tree!''])"
  using ex_cyclic_tree_ok(2) ex_cyclic_resolve by simp

text \<open>
  C3, amended: for every tree (with unique keys) whose parent-reference graph has a cycle,
  the resolver raises no error; it logs the cycle and itself returns the tree's stored
  regeneration order.
\<close>

theorem C3_cycle_falls_back_in_resolver:
  assumes "unique_keys T" "\<not> acyclic (set (dep_edges T))"
  shows "resolve T =
     Inr (regeneration_order T, [''Cyclic dependency detected in feature tree!''])"
proof -
  from assms(1) have dist: "distinct (map fst (nodes T))"
    by (simp add: unique_keys_def dict_keys_def)
  from resolve_kahn[OF assms(1)] obtain res deg deg' where
    r: "initial_in_degree T = Inr deg"
       "kahn_loop (build_dependency_graph T) deg
          (map fst (filter (\<lambda>(nid, degree). degree = 0) deg)) [] = Inr res"
       "kahn_inv (nodes T) deg' [] res"
    by blast
  from r(3) have dres: "distinct res" unfolding kahn_inv_def by simp
  from r(3) have S: "set res = {k. \<exists>n. map_of (nodes T) k = Some n \<and>
      cnt (fst ` set (nodes T) - set res) n = 0}"
    unfolding kahn_inv_def by simp
  have sub: "set res \<subseteq> fst ` set (nodes T)"
  proof
    fix x assume "x \<in> set res"
    with S obtain n where "map_of (nodes T) x = Some n" by blast
    then show "x \<in> fst ` set (nodes T)" using map_of_SomeD by (force simp: image_iff)
  qed
  have "length res \<noteq> length (nodes T)"
  proof
    assume len: "length res = length (nodes T)"
    have "card (set res) = card (fst ` set (nodes T))"
      using dres dist len by (metis distinct_card length_map list.set_map)
    with sub have "set res = fst ` set (nodes T)"
      by (simp add: card_subset_eq)
    from kahn_final_acyclic[OF dist r(3) this] assms(2) show False by simp
  qed
  then show ?thesis
    using r(1,2) by (simp add: resolve_def resolve_dependencies_def)
qed

theorem C3_fallback_witness:
  "unique_keys ex_cyclic_tree \<and> \<not> acyclic (set (dep_edges ex_cyclic_tree)) \<and>
   resolve ex_cyclic_tree =
     Inr (regeneration_order ex_cyclic_tree, [''Cyclic dependency detected in feature tree!''])"
  using C3_cycle_falls_back_in_resolver[OF ex_cyclic_tree_ok] ex_cyclic_tree_ok by blast

subsection \<open>The validator: boolean arity (C7) and parent types (C8)\<close>

lemma temp_tree_nodes:
  "nodes (create_temp_tree_with_node T n) = AList.update (node_id n) n (nodes T)"
  by (simp add: create_temp_tree_with_node_def)

lemma temp_tree_distinct:
  "unique_keys T \<Longrightarrow> distinct (map fst (nodes (create_temp_tree_with_node T n)))"
  by (simp add: temp_tree_nodes unique_keys_def dict_keys_def distinct_update)

lemma dependents_of_nil_iff:
  "dependents_of ns p = [] \<longleftrightarrow>
     (\<forall>(k, n) \<in> set ns. p \<notin> feature_id ` set (parent_references n))"
  unfolding dependents_of_def by (induction ns) (auto simp: filter_empty_conv)

lemma map_of_key: "map_of ns k = Some v \<Longrightarrow> k \<in> fst ` set ns"
  by (force dest: map_of_SomeD simp: image_iff)

lemma set_update_fresh: "k \<notin> fst ` set al \<Longrightarrow> set (AList.update k v al) = insert (k, v) (set al)"
  by (simp add: update_fresh)

lemma new_solid_affects_result:
  assumes uk: "unique_keys T"
    and ty: "feature_type e \<in> set solid_types"
    and fresh: "node_id e \<notin> set (dict_keys (nodes T))"
    and noref: "list_all (\<lambda>(k, n). node_id e \<notin> feature_id ` set (parent_references n)) (nodes T)"
    and self: "node_id e \<notin> feature_id ` set (parent_references e)"
  shows "node_affects_result (create_temp_tree_with_node T e) (node_id e)"
proof -
  let ?T' = "create_temp_tree_with_node T e"
  have fr: "node_id e \<notin> fst ` set (nodes T)" using fresh by (simp add: dict_keys_def)
  have look: "map_of (nodes ?T') (node_id e) = Some e"
    by (simp add: temp_tree_nodes update_conv')
  have inkeys: "node_id e \<in> fst ` set (nodes ?T')" using look by (rule map_of_key)
  have "dependents_of (nodes ?T') (node_id e) = []"
    unfolding dependents_of_nil_iff temp_tree_nodes set_update_fresh[OF fr]
    using noref self by (auto simp: list_all_iff)
  then have "map_of (build_dependency_graph ?T') (node_id e) = Some []"
    using build_dependency_graph_lookup[OF temp_tree_distinct[OF uk], of e "node_id e"] inkeys
    by simp
  then have "dependents_get (build_dependency_graph ?T') (node_id e) = []"
    by (simp add: dependents_get_def)
  then show ?thesis using look ty
    by (simp add: node_affects_result_def traces_to_solid.simps)
qed

lemma check_parent_references_mem:
  assumes "r \<in> set rs" "map_of (nodes T) (feature_id r) = Some p"
    and "valid_parent_types (feature_type n) = Some vs" "feature_type p \<notin> set vs"
  shows "invalid_parent_message (feature_type n) (feature_type p) vs
           \<in> set (check_parent_references T n rs)"
  using assms by (induction rs) auto

lemma invalid_parent_message_extrude_workplane:
  "invalid_parent_message EXTRUDE WORKPLANE [SKETCH] =
     ''Invalid parent type: extrude cannot be created from workplane. Valid parent types: ['' @
     [CHR 0x27] @ ''sketch'' @ [CHR 0x27] @ '']''"
  by (simp add: invalid_parent_message_def str_list_of_values_def)

lemma ex_sketch_tree_nodes:
  "nodes ex_sketch_tree =
     [(''w'', (FeatureNode_new ''w'' ''XY'' WORKPLANE)\<lparr>child_ids := [''s'']\<rparr>),
      (''s'', (FeatureNode_new ''s'' ''Profile'' SKETCH)\<lparr>parent_references := [ref_to ''w'']\<rparr>)]"
  by (simp add: ex_sketch_tree_def add_node_def FeatureTree_new_def FeatureNode_new_def Let_def
      add_child_def)

text \<open>
  C7, as the validator has it. The arity check runs only for the members of
  \<open>boolean_operation_types\<close>, which are UNION and DIFFERENCE: such a candidate, with fewer
  than two parent references that resolve to a node of one of the \<open>solid_types\<close>, is
  rejected, and the list of errors holds the message that names the count found.
\<close>

theorem C7_boolean_arity_union_difference:
  assumes "feature_type new_node = UNION \<or> feature_type new_node = DIFFERENCE"
    and "length (solid_parents T (parent_references new_node)) < 2"
  shows "fst (validate_node_addition T new_node parent_id) = False \<and>
         (''Boolean operation '' @ feature_type_value (feature_type new_node) @
          '' requires 2 solid parents, but only '' @
          str_nat (length (solid_parents T (parent_references new_node))) @
          '' found. Add more solid parent references.'')
           \<in> set (snd (validate_node_addition T new_node parent_id))"
proof -
  have b: "feature_type new_node \<in> set boolean_operation_types"
    using assms(1) by (auto simp: boolean_operation_types_def)
  have "validate_boolean_operation T new_node =
          [boolean_arity_message (feature_type new_node)
             (length (solid_parents T (parent_references new_node)))]"
    using b assms(2) by (simp add: validate_boolean_operation_def Let_def)
  then have m: "boolean_arity_message (feature_type new_node)
             (length (solid_parents T (parent_references new_node)))
           \<in> set (snd (validate_node_addition T new_node parent_id))"
    using b by (simp add: validate_node_addition_def Let_def)
  then have "snd (validate_node_addition T new_node parent_id) \<noteq> []" by auto
  then have "fst (validate_node_addition T new_node parent_id) = False"
    by (simp add: validate_node_addition_def Let_def)
  with m show ?thesis by (simp add: boolean_arity_message_def)
qed

theorem C7_boolean_arity_witness:
  "(feature_type ((FeatureNode_new ''u'' ''Union'' UNION)\<lparr>parent_references := [ref_to ''b'']\<rparr>) = UNION
      \<or> feature_type ((FeatureNode_new ''u'' ''Union'' UNION)\<lparr>parent_references := [ref_to ''b'']\<rparr>) = DIFFERENCE) \<and>
   length (solid_parents ex_chain_tree [ref_to ''b'']) = 1 \<and>
   fst (validate_node_addition ex_chain_tree
          ((FeatureNode_new ''u'' ''Union'' UNION)\<lparr>parent_references := [ref_to ''b'']\<rparr>) None) = False \<and>
   ''Boolean operation union requires 2 solid parents, but only 1 found. Add more solid parent references.''
     \<in> set (snd (validate_node_addition ex_chain_tree
          ((FeatureNode_new ''u'' ''Union'' UNION)\<lparr>parent_references := [ref_to ''b'']\<rparr>) None))"
proof -
  let ?n = "(FeatureNode_new ''u'' ''Union'' UNION)\<lparr>parent_references := [ref_to ''b'']\<rparr>"
  have l: "length (solid_parents ex_chain_tree (parent_references ?n)) = 1"
    by (simp add: ex_chain_tree_nodes ref_to_def FeatureNode_new_def solid_types_def)
  have t: "feature_type ?n = UNION" by (simp add: FeatureNode_new_def)
  have l2: "length (solid_parents ex_chain_tree [ref_to ''b'']) = 1" using l by simp
  have "feature_type ?n = UNION \<or> feature_type ?n = DIFFERENCE" using t by simp
  moreover have "length (solid_parents ex_chain_tree (parent_references ?n)) < 2"
    using l by simp
  ultimately have "fst (validate_node_addition ex_chain_tree ?n None) = False \<and>
         (''Boolean operation '' @ feature_type_value (feature_type ?n) @
          '' requires 2 solid parents, but only '' @
          str_nat (length (solid_parents ex_chain_tree (parent_references ?n))) @
          '' found. Add more solid parent references.'')
           \<in> set (snd (validate_node_addition ex_chain_tree ?n None))"
    by (rule C7_boolean_arity_union_difference)
  then have "fst (validate_node_addition ex_chain_tree ?n None) = False \<and>
     ''Boolean operation union requires 2 solid parents, but only 1 found. Add more solid parent references.''
       \<in> set (snd (validate_node_addition ex_chain_tree ?n None))"
    unfolding l t by (simp add: digit_char_def)
  with t l2 show ?thesis by blast
qed

text \<open>
  C7 as stated fails for INTERSECTION. An INTERSECTION candidate without any parent
  reference is rejected on an empty tree, but the only message is the one of the impact
  check, with no count of solid parents; and on a tree whose BOX node already refers to the
  candidate's id the same candidate is accepted.
\<close>

theorem C7_intersection_not_checked:
  "validate_node_addition (FeatureTree_new ''p'' 1 ''u'')
       (FeatureNode_new ''i'' ''I'' INTERSECTION) None =
     (False, [''Node I (intersection) will not affect the final model result. Ensure it'' @
              [CHR 0x27] @ ''s properly connected to the dependency chain.'']) \<and>
   validate_node_addition
       ((FeatureTree_new ''p'' 1 ''u'')
          \<lparr>nodes := [(''b'', (FeatureNode_new ''b'' ''Box 1'' BOX)\<lparr>parent_references := [ref_to ''i'']\<rparr>)],
           regeneration_order := [''b'']\<rparr>)
       (FeatureNode_new ''i'' ''I'' INTERSECTION) None =
     (True, [])"
  by (simp add: validate_node_addition_def validate_parent_references_def
      validate_semantic_constraints_def validate_dependencies_def validate_result_impact_def
      create_temp_tree_with_node_def node_affects_result_def build_dependency_graph_def
      dependents_get_def no_impact_message_def boolean_operation_types_def solid_types_def
      FeatureTree_new_def FeatureNode_new_def ref_to_def dict_keys_def Let_def
      has_cycle.simps traces_to_solid.simps)

text \<open>
  C8. The tree holds a WORKPLANE node \<open>w\<close> without parent references and a SKETCH node
  \<open>s\<close> whose parent reference is \<open>w\<close>; the candidate is an EXTRUDE node with a new id that no
  node of the tree refers to. With its one parent reference on \<open>w\<close> the candidate is rejected
  and the errors hold the message of the type table; with the reference on \<open>s\<close> the
  validator returns valid and no error.
\<close>

theorem C8_extrude_needs_sketch_parent:
  assumes uk: "unique_keys T"
    and w: "map_of (nodes T) w = Some wn" "feature_type wn = WORKPLANE" "parent_references wn = []"
    and s: "map_of (nodes T) s = Some sn" "feature_type sn = SKETCH"
           "map feature_id (parent_references sn) = [w]"
    and e: "feature_type e = EXTRUDE" "node_id e \<notin> set (dict_keys (nodes T))"
    and noref: "list_all (\<lambda>(k, n). node_id e \<notin> feature_id ` set (parent_references n)) (nodes T)"
    and pid: "parent_id \<in> {None, Some w, Some s}"
  shows "fst (validate_node_addition T (e\<lparr>parent_references := [ref_to w]\<rparr>) parent_id) = False \<and>
         invalid_parent_message EXTRUDE WORKPLANE [SKETCH]
           \<in> set (snd (validate_node_addition T (e\<lparr>parent_references := [ref_to w]\<rparr>) parent_id)) \<and>
         validate_node_addition T (e\<lparr>parent_references := [ref_to s]\<rparr>) parent_id = (True, [])"
proof -
  let ?ew = "e\<lparr>parent_references := [ref_to w]\<rparr>"
  let ?es = "e\<lparr>parent_references := [ref_to s]\<rparr>"
  have wk: "w \<in> fst ` set (nodes T)" using w(1) by (rule map_of_key)
  have sk: "s \<in> fst ` set (nodes T)" using s(1) by (rule map_of_key)
  have ew: "node_id e \<noteq> w" and es: "node_id e \<noteq> s"
    using e(2) wk sk by (auto simp: dict_keys_def)
  have pk: "case parent_id of None \<Rightarrow> True | Some p \<Rightarrow> p \<in> set (dict_keys (nodes T))"
    using pid wk sk by (cases parent_id) (force simp: dict_keys_def)+
  have vp: "valid_parent_types EXTRUDE = Some [SKETCH]" by (simp add: valid_parent_types_def)
  have pw: "validate_parent_references T ?ew parent_id =
              [invalid_parent_message EXTRUDE WORKPLANE [SKETCH]]"
    using pk w e(1) vp
    by (cases parent_id) (simp_all add: validate_parent_references_def ref_to_def)
  have ps: "validate_parent_references T ?es parent_id = []"
    using pk s e(1) vp
    by (cases parent_id) (simp_all add: validate_parent_references_def ref_to_def)
  from pw have m: "invalid_parent_message EXTRUDE WORKPLANE [SKETCH]
      \<in> set (snd (validate_node_addition T ?ew parent_id))"
    by (simp add: validate_node_addition_def Let_def)
  then have "snd (validate_node_addition T ?ew parent_id) \<noteq> []" by auto
  then have r1: "fst (validate_node_addition T ?ew parent_id) = False"
    by (simp add: validate_node_addition_def Let_def)
  obtain rw where rw: "parent_references sn = [rw]" "feature_id rw = w"
    using s(3) by (cases "parent_references sn") auto
  have ws: "w \<noteq> s" using w(1,2) s(1,2) by auto
  have cyc: "fst (has_cycle (nodes (create_temp_tree_with_node T ?es)) (node_id ?es) ({}, {})) = False"
    using ew es ws w s(1) rw
    by (simp add: temp_tree_nodes has_cycle.simps update_conv' ref_to_def)
  have dep: "validate_dependencies T ?es = []"
    using cyc by (simp add: validate_dependencies_def Let_def)
  have "node_affects_result (create_temp_tree_with_node T ?es) (node_id ?es)"
  proof (rule new_solid_affects_result[OF uk])
    show "feature_type ?es \<in> set solid_types" using e(1) by (simp add: solid_types_def)
    show "node_id ?es \<notin> set (dict_keys (nodes T))" using e(2) by simp
    show "list_all (\<lambda>(k, n). node_id ?es \<notin> feature_id ` set (parent_references n)) (nodes T)"
      using noref by simp
    show "node_id ?es \<notin> feature_id ` set (parent_references ?es)"
      using es by (simp add: ref_to_def)
  qed
  then have imp: "validate_result_impact T ?es parent_id = []"
    by (simp add: validate_result_impact_def Let_def)
  have "validate_node_addition T ?es parent_id = (True, [])"
    using ps dep imp e
    by (simp add: validate_node_addition_def Let_def validate_semantic_constraints_def
        boolean_operation_types_def)
  with r1 m show ?thesis by blast
qed

theorem C8_extrude_witness:
  "unique_keys ex_sketch_tree \<and>
   map_of (nodes ex_sketch_tree) ''w'' = Some ((FeatureNode_new ''w'' ''XY'' WORKPLANE)\<lparr>child_ids := [''s'']\<rparr>) \<and>
   map_of (nodes ex_sketch_tree) ''s'' =
     Some ((FeatureNode_new ''s'' ''Profile'' SKETCH)\<lparr>parent_references := [ref_to ''w'']\<rparr>) \<and>
   fst (validate_node_addition ex_sketch_tree
          ((FeatureNode_new ''e'' ''Extrude'' EXTRUDE)\<lparr>parent_references := [ref_to ''w'']\<rparr>)
          (Some ''w'')) = False \<and>
   invalid_parent_message EXTRUDE WORKPLANE [SKETCH]
     \<in> set (snd (validate_node_addition ex_sketch_tree
          ((FeatureNode_new ''e'' ''Extrude'' EXTRUDE)\<lparr>parent_references := [ref_to ''w'']\<rparr>)
          (Some ''w''))) \<and>
   validate_node_addition ex_sketch_tree
          ((FeatureNode_new ''e'' ''Extrude'' EXTRUDE)\<lparr>parent_references := [ref_to ''s'']\<rparr>)
          (Some ''w'') = (True, [])"
proof -
  let ?wn = "(FeatureNode_new ''w'' ''XY'' WORKPLANE)\<lparr>child_ids := [''s'']\<rparr>"
  let ?sn = "(FeatureNode_new ''s'' ''Profile'' SKETCH)\<lparr>parent_references := [ref_to ''w'']\<rparr>"
  let ?e = "FeatureNode_new ''e'' ''Extrude'' EXTRUDE"
  have uk: "unique_keys ex_sketch_tree"
    by (simp add: unique_keys_def dict_keys_def ex_sketch_tree_nodes)
  have w: "map_of (nodes ex_sketch_tree) ''w'' = Some ?wn" by (simp add: ex_sketch_tree_nodes)
  have s: "map_of (nodes ex_sketch_tree) ''s'' = Some ?sn" by (simp add: ex_sketch_tree_nodes)
  have "fst (validate_node_addition ex_sketch_tree (?e\<lparr>parent_references := [ref_to ''w'']\<rparr>) (Some ''w'')) = False \<and>
         invalid_parent_message EXTRUDE WORKPLANE [SKETCH]
           \<in> set (snd (validate_node_addition ex_sketch_tree (?e\<lparr>parent_references := [ref_to ''w'']\<rparr>) (Some ''w''))) \<and>
         validate_node_addition ex_sketch_tree (?e\<lparr>parent_references := [ref_to ''s'']\<rparr>) (Some ''w'') = (True, [])"
  proof (rule C8_extrude_needs_sketch_parent[OF uk w _ _ s])
    show "feature_type ?wn = WORKPLANE" by (simp add: FeatureNode_new_def)
    show "parent_references ?wn = []" by (simp add: FeatureNode_new_def)
    show "feature_type ?sn = SKETCH" by (simp add: FeatureNode_new_def)
    show "map feature_id (parent_references ?sn) = [''w'']" by (simp add: ref_to_def)
    show "feature_type ?e = EXTRUDE" by (simp add: FeatureNode_new_def)
    show "node_id ?e \<notin> set (dict_keys (nodes ex_sketch_tree))"
      by (simp add: FeatureNode_new_def dict_keys_def ex_sketch_tree_nodes)
    show "list_all (\<lambda>(k, n). node_id ?e \<notin> feature_id ` set (parent_references n))
            (nodes ex_sketch_tree)"
      by (simp add: FeatureNode_new_def ex_sketch_tree_nodes ref_to_def)
    show "Some ''w'' \<in> {None, Some ''w'', Some ''s''}" by simp
  qed
  with uk w s show ?thesis by blast
qed

subsection \<open>Removing a node and its descendants (C10)\<close>






































subsection \<open>Patching rewrites every matching line (C5)\<close>















subsection \<open>When the generator raises (C1)\<close>







end
